theory Spec2Isabelle
  imports Main
begin

section \<open>Data model of the translation service\<close>

text \<open>
  The development embeds \<^verbatim>\<open>src/translator/service.cpp\<close>: the \<^verbatim>\<open>Service\<close>
  orchestrator with its admission counter, its request-id allocator, its worker list and
  the vocabulary loader. Heap objects (trackers, promise/future shared states,
  vocabularies) live in explicit stores and are referred to by their index. Calls into
  collaborators are recorded in a trace, so that "nothing was invoked" is a statement
  about the state.
\<close>

datatype StatusCode = UNSET | QUEUED | SUCCESS | REJECTED_MEMORY

datatype Response = EmptyResponse | Translated string

type_synonym Segments = "string list"

type_synonym SentenceRanges = "(nat \<times> nat) list"

text \<open>
  A tracker holds its status, the future handed to the caller (an index into the store
  of shared states, \<open>None\<close> once moved out) and the id of the request it tracks.
\<close>

record RequestTracker =
  status :: StatusCode
  future :: "nat option"
  tracked :: "nat option"

text \<open>The completion closure \<^verbatim>\<open>[tracker, this, inputBytes]\<close> of \<^verbatim>\<open>translatePart\<close>.\<close>

datatype Callback = Callback (cbTracker: nat) (cbInputBytes: nat)

record Request =
  reqId :: nat
  reqLineNumberBegin :: int
  nice :: int
  reqVocabs :: "nat option list"
  source :: string
  segments :: Segments
  sourceRanges :: SentenceRanges
  responsePromise :: nat
  callbacks :: "Callback list"

datatype Batch = Poison | Sentences "Request list"

text \<open>
  Modelled from the spec: the Batcher (batcher.h, batcher.cpp) is not among the sources.
  It "accumulates Requests and emits Batches"; how many pending requests one batch
  takes is the batching heuristic, which the spec leaves open, so it is the parameter
  \<open>cleave\<close>. The unit of work is the whole request.
\<close>

record Batcher =
  pending :: "Request list"
  cleave :: "Request list \<Rightarrow> nat"

text \<open>
  What the closure \<^verbatim>\<open>queueInBackground\<close> captures by reference from the call of
  \<^verbatim>\<open>translatePart\<close> that launches it: the input, the line number, the tracker, the
  promise and \<^verbatim>\<open>inputBytes\<close>.
\<close>

datatype Task = Task (tInput: string) (tLineNumberBegin: int) (tTracker: nat)
  (tPromise: nat) (tInputBytes: nat)

text \<open>
  What a caller of \<^verbatim>\<open>translatePart\<close> holds between the check of line 75 and line 83:
  its input, the line number, its tracker and its promise (\<^verbatim>\<open>inputBytes\<close> is the size of
  that input, line 73).
\<close>

datatype Caller = Caller (cInput: string) (cLineNumberBegin: int) (cTracker: nat)
  (cPromise: nat)

text \<open>A worker thread: the translator it is bound to and whether its body has returned.\<close>

datatype Worker = Worker (translatorIdx: nat) (exited: bool)

text \<open>
  The calls that leave the service or matter to a caller, in the order they are made:
  \<^verbatim>\<open>text_processor_.process\<close>, the construction of a \<^verbatim>\<open>Request\<close>, a launch by
  \<^verbatim>\<open>std::async\<close>, a translator's \<^verbatim>\<open>translate(batch)\<close>, a push into the queue and the
  \<^verbatim>\<open>join\<close> of a worker.
\<close>

datatype Event =
    EvProcess string
  | EvNewRequest Request
  | EvAsync
  | EvTranslate nat Batch
  | EvProduce Batch
  | EvJoin nat

text \<open>
  The fields of \<^verbatim>\<open>Service\<close>. Their declarations (service.h) are not among the
  sources: following the spec, \<open>requestId\<close> is a counter that only grows (a natural
  number) and \<open>capacityBytes\<close> is "a single shared integer" (initialised from an
  \<^verbatim>\<open>int\<close> option), whose value is kept as it is. \<open>translators\<close> holds the
  device id of each translator.

  Three fields are not fields of the class; they hold where other threads stand.
  \<open>admitted\<close> are the callers of \<^verbatim>\<open>translatePart\<close> that have passed the check of line 75
  and have not yet reached line 83; \<open>background\<close> are the closures launched by
  \<^verbatim>\<open>std::async\<close> that have not run yet (their callers wait for them); \<open>trace\<close> is the
  record of calls.
\<close>

record Service =
  requestId :: nat
  numWorkers :: nat
  svocabs :: "nat option list"
  text_processor :: "string \<Rightarrow> Segments \<times> SentenceRanges"
  batcher :: Batcher
  capacityBytes :: int
  pcqueue :: "Batch list"
  translators :: "nat list"
  workers :: "Worker list"
  trackers :: "RequestTracker list"
  promises :: "Response option list"
  admitted :: "Caller list"
  background :: "Task list"
  trace :: "Event list"

section \<open>Trackers, promises and request completion\<close>

definition setStatus :: "nat \<Rightarrow> StatusCode \<Rightarrow> Service \<Rightarrow> Service" where
  "setStatus t c s = s\<lparr>trackers := (trackers s)[t := (trackers s ! t)\<lparr>status := c\<rparr>]\<rparr>"

definition track :: "nat \<Rightarrow> Request \<Rightarrow> Service \<Rightarrow> Service" where
  "track t r s = s\<lparr>trackers := (trackers s)[t := (trackers s ! t)\<lparr>tracked := Some (reqId r)\<rparr>]\<rparr>"

definition set_value :: "nat \<Rightarrow> Response \<Rightarrow> Service \<Rightarrow> Service" where
  "set_value p v s = s\<lparr>promises := (promises s)[p := Some v]\<rparr>"

text \<open>
  The body of the completion callback (service.cpp, lines 102 to 106): the tracker becomes
  \<open>SUCCESS\<close> and the request's bytes return to the budget.
\<close>

fun runCallback :: "Callback \<Rightarrow> Service \<Rightarrow> Service" where
  "runCallback (Callback tracker inputBytes) s =
     (let s1 = setStatus tracker SUCCESS s
      in s1\<lparr>capacityBytes := capacityBytes s1 + int inputBytes\<rparr>)"

text \<open>
  Modelled from the spec: \<^verbatim>\<open>Request\<close> (request.h, request.cpp) is not among the sources.
  Completing a request resolves its completion signal and runs the callbacks registered
  with \<^verbatim>\<open>onCompleteRequest\<close>, in order; the request is then gone.
\<close>

definition completeRequest :: "Request \<Rightarrow> Service \<Rightarrow> Service" where
  "completeRequest r s =
     fold runCallback (callbacks r) (set_value (responsePromise r) (Translated (source r)) s)"

text \<open>
  Modelled from the spec: the inference engine (the translator's \<^verbatim>\<open>translate(batch)\<close>)
  is not among the sources. It "triggers per-request completion callbacks as a side
  effect once inference for that batch's requests finishes".
\<close>

fun translateBatch :: "nat \<Rightarrow> Batch \<Rightarrow> Service \<Rightarrow> Service" where
  "translateBatch i Poison s = s\<lparr>trace := trace s @ [EvTranslate i Poison]\<rparr>"
| "translateBatch i (Sentences rs) s =
     fold completeRequest rs (s\<lparr>trace := trace s @ [EvTranslate i (Sentences rs)]\<rparr>)"

section \<open>The Batcher\<close>

definition addWholeRequest :: "Request \<Rightarrow> Batcher \<Rightarrow> Batcher" where
  "addWholeRequest r b = b\<lparr>pending := pending b @ [r]\<rparr>"

text \<open>
  \<^verbatim>\<open>batcher >> batch\<close>: "pull one ready Batch, false if none". A batch is a non-empty
  prefix of the pending requests.
\<close>

definition pull :: "Batcher \<Rightarrow> (Batch \<times> Batcher) option" where
  "pull b =
     (if pending b = [] then None
      else let k = max 1 (cleave b (pending b))
           in Some (Sentences (take k (pending b)), b\<lparr>pending := drop k (pending b)\<rparr>))"

lemma pull_shrinks:
  "pull b = Some (batch, b') \<Longrightarrow> length (pending b') < length (pending b)"
  by (auto simp: pull_def Let_def split: if_splits)

lemma batcher_runCallback: "batcher (runCallback c s) = batcher s"
  by (cases c) (simp add: setStatus_def Let_def)

lemma batcher_fold_runCallback: "batcher (fold runCallback cs s) = batcher s"
  by (induction cs arbitrary: s) (simp_all add: batcher_runCallback)

lemma batcher_completeRequest: "batcher (completeRequest r s) = batcher s"
  by (simp add: completeRequest_def batcher_fold_runCallback set_value_def)

lemma batcher_fold_completeRequest: "batcher (fold completeRequest rs s) = batcher s"
  by (induction rs arbitrary: s) (simp_all add: batcher_completeRequest)

lemma batcher_translateBatch: "batcher (translateBatch i b s) = batcher s"
  by (cases b) (simp_all add: batcher_fold_completeRequest)

text \<open>
  The single-threaded loop of \<^verbatim>\<open>translatePart\<close> (lines 127 to 130):
  \<^verbatim>\<open>while (batcher_ >> batch) translators_[0].translate(batch);\<close>
\<close>

function drain :: "Service \<Rightarrow> Service" where
  "drain s =
     (case pull (batcher s) of
        None \<Rightarrow> s
      | Some (batch, b') \<Rightarrow> drain (translateBatch 0 batch (s\<lparr>batcher := b'\<rparr>)))"
  by pat_completeness auto
termination
  by (relation "measure (\<lambda>s. length (pending (batcher s)))")
     (auto simp: batcher_translateBatch dest: pull_shrinks)

text \<open>
  The queue's push, \<^verbatim>\<open>pcqueue_.ProduceSwap(batch)\<close>. The queue is built for
  \<^verbatim>\<open>2 * cpu-threads\<close> batches (line 16) and a push onto a full queue waits until a
  worker has popped. The bound is not modelled: the push stands for the moment at which
  the batch enters the queue, after any such wait.
\<close>

definition ProduceSwap :: "Batch \<Rightarrow> Service \<Rightarrow> Service" where
  "ProduceSwap b s = s\<lparr>pcqueue := pcqueue s @ [b], trace := trace s @ [EvProduce b]\<rparr>"

text \<open>
  Modelled from the spec: \<^verbatim>\<open>Batcher::produceTo(queue)\<close> is not among the sources. It moves
  every ready batch into the queue.
\<close>

function produceTo :: "Service \<Rightarrow> Service" where
  "produceTo s =
     (case pull (batcher s) of
        None \<Rightarrow> s
      | Some (batch, b') \<Rightarrow> produceTo (ProduceSwap batch (s\<lparr>batcher := b'\<rparr>)))"
  by pat_completeness auto
termination
  by (relation "measure (\<lambda>s. length (pending (batcher s)))")
     (auto simp: ProduceSwap_def dest: pull_shrinks)

section \<open>Submission\<close>

text \<open>The closure \<^verbatim>\<open>prepareRequest\<close> (lines 88 to 112).\<close>

definition prepareRequest :: "string \<Rightarrow> int \<Rightarrow> nat \<Rightarrow> nat \<Rightarrow> nat \<Rightarrow> Service \<Rightarrow> Service" where
  "prepareRequest input lineNumberBegin tracker promise inputBytes s =
     (let (segs, ranges) = text_processor s input;
          s1 = s\<lparr>trace := trace s @ [EvProcess input]\<rparr>;
          request = \<lparr>reqId = requestId s1, reqLineNumberBegin = lineNumberBegin, nice = 20,
                     reqVocabs = svocabs s1, source = input, segments = segs,
                     sourceRanges = ranges, responsePromise = promise, callbacks = []\<rparr>;
          s2 = s1\<lparr>requestId := requestId s1 + 1, trace := trace s1 @ [EvNewRequest request]\<rparr>;
          s3 = track tracker request s2;
          request' = request\<lparr>callbacks := callbacks request @ [Callback tracker inputBytes]\<rparr>;
          s4 = s3\<lparr>batcher := addWholeRequest request' (batcher s3)\<rparr>
      in setStatus tracker QUEUED s4)"

text \<open>The closure \<^verbatim>\<open>queueInBackground\<close> (lines 118 to 121).\<close>

fun queueInBackground :: "Task \<Rightarrow> Service \<Rightarrow> Service" where
  "queueInBackground (Task input lineNumberBegin tracker promise inputBytes) s =
     produceTo (prepareRequest input lineNumberBegin tracker promise inputBytes s)"

text \<open>
  The comparison of line 75, \<^verbatim>\<open>inputBytes > capacityBytes_\<close>, has a \<^verbatim>\<open>size_t\<close> on its
  left: the counter is converted to \<^verbatim>\<open>size_t\<close> before it is compared, so a negative
  counter counts as its value modulo \<open>2 ^ 64\<close> (\<^verbatim>\<open>size_t\<close> taken as 64 bits wide).
  Line 15 takes the counter from an \<^verbatim>\<open>int\<close> option without looking at its sign.
\<close>

definition as_size_t :: "int \<Rightarrow> int" where
  "as_size_t c = (if c < 0 then c mod 2 ^ 64 else c)"

text \<open>
  \<^verbatim>\<open>Service::translatePart\<close>, one call from its first statement to its return, with no
  other thread in between. The result is the tracker and the new state. With workers,
  \<^verbatim>\<open>std::async(std::launch::async, queueInBackground)\<close> starts the closure on a thread
  of its own and the future it returns is dropped at the end of the statement (line 122);
  the destructor of such a future waits for the closure, so the closure has run when the
  statement is over.
\<close>

definition translatePart :: "string \<Rightarrow> int \<Rightarrow> Service \<Rightarrow> nat \<times> Service" where
  "translatePart input lineNumberBegin s =
     (let tracker = length (trackers s);
          responsePromise = length (promises s);
          s1 = s\<lparr>trackers := trackers s @ [\<lparr>status = UNSET, future = Some responsePromise,
                                               tracked = None\<rparr>],
                 promises := promises s @ [None]\<rparr>;
          inputBytes = length input
      in if int inputBytes > as_size_t (capacityBytes s1) then
           (tracker, set_value responsePromise EmptyResponse
                       (setStatus tracker REJECTED_MEMORY s1))
         else
           let s2 = s1\<lparr>capacityBytes := capacityBytes s1 - int (length input)\<rparr>
           in if numWorkers s2 > 0 then
                (tracker, queueInBackground
                            (Task input lineNumberBegin tracker responsePromise inputBytes)
                            (s2\<lparr>trace := trace s2 @ [EvAsync]\<rparr>))
              else
                (tracker, drain (prepareRequest input lineNumberBegin tracker responsePromise
                                   inputBytes s2)))"

text \<open>
  \<^verbatim>\<open>Service::translate\<close>: the future is moved out of the tracker and returned.
\<close>

definition translate :: "string \<Rightarrow> Service \<Rightarrow> nat option \<times> Service" where
  "translate input s =
     (let (tracker, s1) = translatePart input 0 s;
          fut = future (trackers s1 ! tracker)
      in (fut, s1\<lparr>trackers := (trackers s1)[tracker := (trackers s1 ! tracker)\<lparr>future := None\<rparr>]\<rparr>))"

definition translateWithCopy :: "string \<Rightarrow> Service \<Rightarrow> nat option \<times> Service" where
  "translateWithCopy input s = translate input s"

subsection \<open>The parts of a call between which other threads can run\<close>

text \<open>
  Nothing is held from the check of line 75 to the subtraction of line 83, and the
  launched closure runs on a thread of its own. For runs in which other threads come in
  between, a call is cut in three: \<open>admit\<close> is lines 68 to 79, up to and with the check
  (an admitted caller is remembered in \<open>admitted\<close>); \<open>proceed\<close> is line 83 and the
  dispatch of lines 114 to 131, up to the launch of the closure; the closure itself is
  \<open>queueInBackground\<close>. \<open>moveFuture\<close> is the return of \<^verbatim>\<open>translate\<close>, lines 61 and 62.
\<close>

definition admit :: "string \<Rightarrow> int \<Rightarrow> Service \<Rightarrow> nat \<times> Service" where
  "admit input lineNumberBegin s =
     (let tracker = length (trackers s);
          responsePromise = length (promises s);
          s1 = s\<lparr>trackers := trackers s @ [\<lparr>status = UNSET, future = Some responsePromise,
                                               tracked = None\<rparr>],
                 promises := promises s @ [None]\<rparr>;
          inputBytes = length input
      in if int inputBytes > as_size_t (capacityBytes s1) then
           (tracker, set_value responsePromise EmptyResponse
                       (setStatus tracker REJECTED_MEMORY s1))
         else
           (tracker, s1\<lparr>admitted := admitted s1 @
                         [Caller input lineNumberBegin tracker responsePromise]\<rparr>))"

fun proceed :: "Caller \<Rightarrow> Service \<Rightarrow> Service" where
  "proceed (Caller input lineNumberBegin tracker promise) s =
     (let inputBytes = length input;
          s2 = s\<lparr>capacityBytes := capacityBytes s - int (length input)\<rparr>
      in if numWorkers s2 > 0 then
           s2\<lparr>background := background s2 @
                  [Task input lineNumberBegin tracker promise inputBytes],
               trace := trace s2 @ [EvAsync]\<rparr>
         else
           drain (prepareRequest input lineNumberBegin tracker promise inputBytes s2))"

definition moveFuture :: "nat \<Rightarrow> Service \<Rightarrow> Service" where
  "moveFuture tracker s =
     s\<lparr>trackers := (trackers s)[tracker := (trackers s ! tracker)\<lparr>future := None\<rparr>]\<rparr>"

section \<open>Workers and shutdown\<close>

text \<open>
  Modelled from the spec: the worker's loop (\<^verbatim>\<open>consumeFrom\<close>) is not among the sources.
  A worker pops one batch at a time, leaves its loop at a poison and translates any other
  batch with its translator. \<open>workerStep\<close> is one iteration of the loop of the \<open>k\<close>-th
  worker thread; a worker waiting on the empty queue, or one that has left its loop,
  takes no step. When the loop is left the thread's body returns: the worker has exited.
\<close>

definition workerStep :: "nat \<Rightarrow> Service \<Rightarrow> Service option" where
  "workerStep k s =
     (if k < length (workers s) \<and> \<not> exited (workers s ! k) then
        (case pcqueue s of
           [] \<Rightarrow> None
         | Poison # q \<Rightarrow>
             Some (s\<lparr>pcqueue := q,
                     workers := (workers s)[k := Worker (translatorIdx (workers s ! k)) True]\<rparr>)
         | Sentences rs # q \<Rightarrow>
             Some (translateBatch (translatorIdx (workers s ! k)) (Sentences rs)
                     (s\<lparr>pcqueue := q\<rparr>)))
      else None)"

text \<open>
  The loop of the \<open>k\<close>-th worker run until it is left, on the queue's content \<open>q\<close>. On
  a queue that runs empty before a poison the worker waits for ever, which is the value
  \<open>None\<close>.
\<close>

fun consumeFrom :: "nat \<Rightarrow> Batch list \<Rightarrow> Service \<Rightarrow> Service option" where
  "consumeFrom k [] s = None"
| "consumeFrom k (Poison # q) s =
     Some (s\<lparr>pcqueue := q,
             workers := (workers s)[k := Worker (translatorIdx (workers s ! k)) True]\<rparr>)"
| "consumeFrom k (Sentences rs # q) s =
     consumeFrom k q (translateBatch (translatorIdx (workers s ! k)) (Sentences rs)
                        (s\<lparr>pcqueue := q\<rparr>))"

text \<open>
  \<^verbatim>\<open>worker.join()\<close> on the \<open>k\<close>-th worker of the list: the caller waits until that
  worker's body has returned, so the worker runs its loop to the end meanwhile (or has
  done so before).
\<close>

definition join :: "nat \<Rightarrow> Service \<Rightarrow> Service option" where
  "join k s =
     (let s1 = s\<lparr>trace := trace s @ [EvJoin (translatorIdx (workers s ! k))]\<rparr>
      in if exited (workers s ! k) then Some s1 else consumeFrom k (pcqueue s1) s1)"

fun joinAll :: "nat list \<Rightarrow> Service \<Rightarrow> Service option" where
  "joinAll [] s = Some s"
| "joinAll (k # ks) s = (case join k s of None \<Rightarrow> None | Some s' \<Rightarrow> joinAll ks s')"

text \<open>
  \<^verbatim>\<open>Service::stop\<close>: its two loops over \<^verbatim>\<open>workers_\<close> (lines 146 to 153), then
  \<^verbatim>\<open>workers_.clear()\<close> (line 155). The destructor (line 158) is \<open>stop\<close>.
\<close>

definition stopLoops :: "Service \<Rightarrow> Service option" where
  "stopLoops s =
     (let s1 = fold (\<lambda>worker. ProduceSwap Poison) (workers s) s
      in joinAll [0..<length (workers s1)] s1)"

definition stop :: "Service \<Rightarrow> Service option" where
  "stop s = (case stopLoops s of None \<Rightarrow> None | Some s2 \<Rightarrow> Some (s2\<lparr>workers := []\<rparr>))"

definition destroy :: "Service \<Rightarrow> Service option" where
  "destroy s = stop s"

section \<open>Vocabularies and construction\<close>

datatype error = Abort string

text \<open>
  A vocabulary object: the index given to \<^verbatim>\<open>New<Vocab>(options, i)\<close> and the files
  loaded into it by \<^verbatim>\<open>load\<close>, in order. A \<^verbatim>\<open>Ptr<Vocab>\<close> is an index into the store
  of vocabulary objects, or \<open>None\<close> for the null pointer.
\<close>

record Vocab =
  batchIndex :: nat
  loaded :: "string list"

text \<open>
  The options the constructor reads. \<^verbatim>\<open>cpu-threads\<close> is read as an \<^verbatim>\<open>int\<close> and used
  as a number of workers, hence a natural number here; \<^verbatim>\<open>capacity-bytes\<close> is read as
  an \<^verbatim>\<open>int\<close>.
\<close>

record Options =
  cpu_threads :: nat
  capacity_bytes :: int
  opt_vocabs :: "string list"

text \<open>\<^verbatim>\<open>unordered_map::emplace\<close>: the map, and whether the key was inserted.\<close>

definition emplace :: "('k \<rightharpoonup> 'v) \<Rightarrow> 'k \<Rightarrow> 'v \<Rightarrow> ('k \<rightharpoonup> 'v) \<times> bool" where
  "emplace m k v = (case m k of None \<Rightarrow> (m(k \<mapsto> v), True) | Some _ \<Rightarrow> (m, False))"

text \<open>The loop of \<^verbatim>\<open>loadVocabularies\<close> (lines 168 to 175), from index \<open>i\<close> on.\<close>

function loadLoop ::
  "string list \<Rightarrow> nat \<Rightarrow> (string \<rightharpoonup> nat option) \<Rightarrow> Vocab list \<Rightarrow> nat option list \<Rightarrow>
   Vocab list \<times> nat option list" where
  "loadLoop vfiles i vmap store vocabs =
     (if i < length vocabs then
        (let (vmap1, inserted) = emplace vmap (vfiles ! i) None
         in if inserted then
              (let p = length store;
                   store1 = store @ [\<lparr>batchIndex = i, loaded = []\<rparr>];
                   store2 = store1[p := (store1 ! p)\<lparr>loaded := loaded (store1 ! p) @ [vfiles ! i]\<rparr>];
                   vmap2 = vmap1(vfiles ! i \<mapsto> Some p)
               in loadLoop vfiles (i + 1) vmap2 store2 (vocabs[i := the (vmap2 (vfiles ! i))]))
            else loadLoop vfiles (i + 1) vmap1 store (vocabs[i := the (vmap1 (vfiles ! i))]))
      else (store, vocabs))"
  by pat_completeness auto
termination
  by (relation "measure (\<lambda>(vfiles, i, vmap, store, vocabs). length vocabs - i)") auto

definition loadVocabularies :: "Options \<Rightarrow> error + Vocab list \<times> nat option list" where
  "loadVocabularies options =
     (let vfiles = opt_vocabs options
      in if length vfiles < 2 then Inl (Abort ''Insufficient number of vocabularies.'')
         else Inr (loadLoop vfiles 0 Map.empty [] (replicate (length vfiles) None)))"

text \<open>
  The constructor (lines 11 to 41). The text processor and the batching heuristic are
  what the collaborators built from the options do. Worker threads are started here;
  their loops run in later steps.
\<close>

definition construct ::
  "Options \<Rightarrow> (string \<Rightarrow> Segments \<times> SentenceRanges) \<Rightarrow> (Request list \<Rightarrow> nat) \<Rightarrow>
   error + Service" where
  "construct options process heuristic =
     (case loadVocabularies options of
        Inl e \<Rightarrow> Inl e
      | Inr (store, vs) \<Rightarrow>
          Inr \<lparr>requestId = 0, numWorkers = cpu_threads options, svocabs = vs,
               text_processor = process,
               batcher = \<lparr>pending = [], cleave = heuristic\<rparr>,
               capacityBytes = capacity_bytes options, pcqueue = [],
               translators = (if cpu_threads options = 0 then [0]
                              else [0..<cpu_threads options]),
               workers = map (\<lambda>cpuId. Worker cpuId False) [0..<cpu_threads options],
               trackers = [], promises = [], admitted = [], background = [],
               trace = []\<rparr>)"

section \<open>Runs of the service\<close>

text \<open>
  What can happen to a service, one step at a time, whichever thread takes it. A caller
  enters \<^verbatim>\<open>translate\<close> and runs up to the check (\<open>AAdmit\<close>); an admitted caller
  goes on with the subtraction and the dispatch (\<open>AProceed\<close>); a launched closure runs,
  after which its caller returns (\<open>ABackground\<close>); a worker takes one batch
  (\<open>AWorker\<close>); the service is stopped (\<open>AStop\<close>). \<open>ATranslate\<close> and
  \<open>ATranslateWithCopy\<close> are a call whose check and subtraction follow one another with no
  other step in between. A step that cannot be taken (no such caller or closure, a
  worker waiting on the empty queue) is \<open>None\<close>.
\<close>

datatype Action =
    ATranslate string
  | ATranslateWithCopy string
  | AAdmit string
  | AProceed nat
  | ABackground nat
  | AWorker nat
  | AStop

definition admitStep :: "string \<Rightarrow> Service \<Rightarrow> Service" where
  "admitStep input s =
     (let (tracker, s1) = admit input 0 s
      in if int (length input) > as_size_t (capacityBytes s) then moveFuture tracker s1
         else s1)"

definition proceedStep :: "nat \<Rightarrow> Service \<Rightarrow> Service option" where
  "proceedStep k s =
     (if k < length (admitted s) then
        (let caller = admitted s ! k;
             s1 = proceed caller
                    (s\<lparr>admitted := take k (admitted s) @ drop (Suc k) (admitted s)\<rparr>)
         in Some (if numWorkers s > 0 then s1 else moveFuture (cTracker caller) s1))
      else None)"

definition backgroundStep :: "nat \<Rightarrow> Service \<Rightarrow> Service option" where
  "backgroundStep k s =
     (if k < length (background s) then
        (let task = background s ! k
         in Some (moveFuture (tTracker task)
                    (queueInBackground task
                       (s\<lparr>background := take k (background s) @ drop (Suc k) (background s)\<rparr>))))
      else None)"

definition callStep :: "string \<Rightarrow> Service \<Rightarrow> Service option" where
  "callStep input s =
     (if int (length input) > as_size_t (capacityBytes s) then Some (admitStep input s)
      else proceedStep (length (admitted s)) (admitStep input s))"

fun step :: "Action \<Rightarrow> Service \<Rightarrow> Service option" where
  "step (ATranslate input) s = callStep input s"
| "step (ATranslateWithCopy input) s = callStep input s"
| "step (AAdmit input) s = Some (admitStep input s)"
| "step (AProceed k) s = proceedStep k s"
| "step (ABackground k) s = backgroundStep k s"
| "step (AWorker k) s = workerStep k s"
| "step AStop s = stop s"

fun run :: "Action list \<Rightarrow> Service \<Rightarrow> Service option" where
  "run [] s = Some s"
| "run (a # as) s = (case step a s of None \<Rightarrow> None | Some s' \<Rightarrow> run as s')"

text \<open>
  The runs in which submissions do not overlap: no caller reaches the check while another
  caller stands between the check and the subtraction.
\<close>

fun entersCall :: "Action \<Rightarrow> bool" where
  "entersCall (ATranslate input) = True"
| "entersCall (ATranslateWithCopy input) = True"
| "entersCall (AAdmit input) = True"
| "entersCall a = False"

fun oneAtATime :: "Action list \<Rightarrow> Service \<Rightarrow> bool" where
  "oneAtATime [] s = True"
| "oneAtATime (a # as) s =
     ((if entersCall a then admitted s = [] else True) \<and>
      (case step a s of None \<Rightarrow> True | Some s' \<Rightarrow> oneAtATime as s'))"

section \<open>Observations on the state and the trace\<close>

text \<open>The bytes that accepted requests still hold: in launched tasks, in the Batcher, in the queue.\<close>

definition reqBytes :: "Request \<Rightarrow> nat" where
  "reqBytes r = sum_list (map cbInputBytes (callbacks r))"

fun batchRequests :: "Batch \<Rightarrow> Request list" where
  "batchRequests Poison = []"
| "batchRequests (Sentences rs) = rs"

definition batchBytes :: "Batch \<Rightarrow> nat" where
  "batchBytes b = sum_list (map reqBytes (batchRequests b))"

definition outstanding :: "Service \<Rightarrow> nat" where
  "outstanding s =
     sum_list (map tInputBytes (background s)) +
     sum_list (map reqBytes (pending (batcher s))) +
     sum_list (map batchBytes (pcqueue s))"

text \<open>The request that \<open>prepareRequest\<close> constructs, before and after the callback is registered.\<close>

definition newRequest :: "string \<Rightarrow> int \<Rightarrow> nat \<Rightarrow> Service \<Rightarrow> Request" where
  "newRequest input lineNumberBegin promise s =
     \<lparr>reqId = requestId s, reqLineNumberBegin = lineNumberBegin, nice = 20,
      reqVocabs = svocabs s, source = input, segments = fst (text_processor s input),
      sourceRanges = snd (text_processor s input), responsePromise = promise, callbacks = []\<rparr>"

text \<open>
  What the trace records, by kind of event and in order: the requests constructed, the
  batches pushed into the queue, the workers joined, and the batches translated with the
  translator that took them.
\<close>

fun issued :: "Event list \<Rightarrow> Request list" where
  "issued [] = []"
| "issued (EvNewRequest r # es) = r # issued es"
| "issued (e # es) = issued es"

fun produced :: "Event list \<Rightarrow> Batch list" where
  "produced [] = []"
| "produced (EvProduce b # es) = b # produced es"
| "produced (e # es) = produced es"

fun joined :: "Event list \<Rightarrow> nat list" where
  "joined [] = []"
| "joined (EvJoin i # es) = i # joined es"
| "joined (e # es) = joined es"

fun translated :: "Event list \<Rightarrow> (nat \<times> Batch) list" where
  "translated [] = []"
| "translated (EvTranslate i b # es) = (i, b) # translated es"
| "translated (e # es) = translated es"

text \<open>The worker list after the \<open>k\<close>-th worker has left its loop.\<close>

definition exitAt :: "nat \<Rightarrow> Worker list \<Rightarrow> Worker list" where
  "exitAt k ws = ws[k := Worker (translatorIdx (ws ! k)) True]"

text \<open>The shared state \<open>p\<close> of a promise and its future holds a value.\<close>

definition resolved :: "nat \<Rightarrow> Service \<Rightarrow> bool" where
  "resolved p s \<longleftrightarrow> p < length (promises s) \<and> promises s ! p \<noteq> None"

text \<open>
  The invariant of the loop before position \<open>i\<close>: the map knows exactly the names seen
  so far, each with the object that loaded it, and every position seen holds what the
  map has for its name.
\<close>

definition loadInv ::
  "string list \<Rightarrow> nat \<Rightarrow> (string \<rightharpoonup> nat option) \<Rightarrow> Vocab list \<Rightarrow> nat option list \<Rightarrow> bool" where
  "loadInv vfiles i vmap store vocabs \<longleftrightarrow>
     length vocabs = length vfiles \<and> i \<le> length vfiles \<and>
     dom vmap = set (take i vfiles) \<and>
     (\<forall>name \<in> dom vmap. \<exists>p < length store. vmap name = Some (Some p) \<and> loaded (store ! p) = [name]) \<and>
     (\<forall>k < i. vmap (vfiles ! k) = Some (vocabs ! k)) \<and>
     distinct (concat (map loaded store)) \<and>
     set (concat (map loaded store)) = dom vmap"


text \<open>
  A request has the priority and the line number that \<open>translate\<close> gives it; and every
  request constructed, pending or queued has them, as every admitted caller and every
  launched closure has the line number.
\<close>

definition submittedAsIs :: "Request \<Rightarrow> bool" where
  "submittedAsIs r \<longleftrightarrow> nice r = 20 \<and> reqLineNumberBegin r = 0"

definition allAsSubmitted :: "Service \<Rightarrow> bool" where
  "allAsSubmitted s \<longleftrightarrow>
     list_all submittedAsIs (issued (trace s)) \<and>
     list_all submittedAsIs (pending (batcher s)) \<and>
     list_all submittedAsIs (concat (map batchRequests (pcqueue s))) \<and>
     list_all (\<lambda>caller. cLineNumberBegin caller = 0) (admitted s) \<and>
     list_all (\<lambda>task. tLineNumberBegin task = 0) (background s)"

declare loadLoop.simps [simp del] drain.simps [simp del] produceTo.simps [simp del]

section \<open>A small service, for concrete instances\<close>

definition exampleOptions :: "nat \<Rightarrow> int \<Rightarrow> Options" where
  "exampleOptions n c = \<lparr>cpu_threads = n, capacity_bytes = c, opt_vocabs = [''src'', ''trg'']\<rparr>"

definition exampleProcess :: "string \<Rightarrow> Segments \<times> SentenceRanges" where
  "exampleProcess x = ([x], [(0, length x)])"

definition exampleService :: "nat \<Rightarrow> int \<Rightarrow> Service" where
  "exampleService n c =
     \<lparr>requestId = 0, numWorkers = n, svocabs = [Some 0, Some 1],
      text_processor = exampleProcess,
      batcher = \<lparr>pending = [], cleave = (\<lambda>rs. 1)\<rparr>,
      capacityBytes = c, pcqueue = [],
      translators = (if n = 0 then [0] else [0..<n]),
      workers = map (\<lambda>cpuId. Worker cpuId False) [0..<n],
      trackers = [], promises = [], admitted = [], background = [], trace = []\<rparr>"

text \<open>The batching heuristic of the examples, by name: one request to a batch.\<close>

definition oneByOne :: "Request list \<Rightarrow> nat" where
  "oneByOne rs = 1"

lemma construct_example:
  "construct (exampleOptions n c) exampleProcess (\<lambda>rs. 1) = Inr (exampleService n c)"
  by (simp add: construct_def loadVocabularies_def exampleOptions_def exampleService_def
      loadLoop.simps emplace_def Let_def)

lemma construct_example_oneByOne:
  "construct (exampleOptions n c) exampleProcess oneByOne = Inr (exampleService n c)"
proof -
  have "oneByOne = (\<lambda>rs. 1)" by (rule ext) (simp add: oneByOne_def)
  with construct_example show ?thesis by simp
qed

section \<open>The copying entry point\<close>

text \<open>
  C9. \<open>translateWithCopy\<close> returns what \<open>translate\<close> returns on the same input: the same
  future and the same state after the call, hence the same admission decision and the
  same effect on \<open>capacityBytes\<close> and on the id allocator.
\<close>

theorem translateWithCopy_is_translate:
  "translateWithCopy input s = translate input s \<and>
   capacityBytes (snd (translateWithCopy input s)) = capacityBytes (snd (translate input s)) \<and>
   requestId (snd (translateWithCopy input s)) = requestId (snd (translate input s))"
  by (simp add: translateWithCopy_def)

theorem translateWithCopy_is_translate_witness:
  "translateWithCopy ''hello'' (exampleService 0 10) = translate ''hello'' (exampleService 0 10)"
  using translateWithCopy_is_translate [of "''hello''" "exampleService 0 10"] by (rule conjunct1)

section \<open>Loading the vocabularies\<close>

lemma loadLoop_new:
  "i < length vocabs \<Longrightarrow> vmap (vfiles ! i) = None \<Longrightarrow>
   loadLoop vfiles i vmap store vocabs =
   loadLoop vfiles (Suc i) (vmap(vfiles ! i \<mapsto> Some (length store)))
     (store @ [\<lparr>batchIndex = i, loaded = [vfiles ! i]\<rparr>]) (vocabs[i := Some (length store)])"
  by (subst loadLoop.simps) (simp add: emplace_def Let_def)

lemma loadLoop_old:
  "i < length vocabs \<Longrightarrow> vmap (vfiles ! i) = Some v \<Longrightarrow>
   loadLoop vfiles i vmap store vocabs = loadLoop vfiles (Suc i) vmap store (vocabs[i := v])"
  by (subst loadLoop.simps) (simp add: emplace_def Let_def)

lemma loadLoop_done:
  "\<not> i < length vocabs \<Longrightarrow> loadLoop vfiles i vmap store vocabs = (store, vocabs)"
  by (subst loadLoop.simps) simp

lemma loadInv_new:
  assumes inv: "loadInv vfiles i vmap store vocabs" and i: "i < length vocabs"
    and new: "vmap (vfiles ! i) = None"
  shows "loadInv vfiles (Suc i) (vmap(vfiles ! i \<mapsto> Some (length store)))
     (store @ [\<lparr>batchIndex = i, loaded = [vfiles ! i]\<rparr>]) (vocabs[i := Some (length store)])"
proof -
  let ?name = "vfiles ! i"
  from inv have len: "length vocabs = length vfiles" and
    dom: "dom vmap = set (take i vfiles)" and
    ptr: "\<forall>name \<in> dom vmap. \<exists>p < length store. vmap name = Some (Some p) \<and> loaded (store ! p) = [name]" and
    pos: "\<forall>k < i. vmap (vfiles ! k) = Some (vocabs ! k)" and
    dist: "distinct (concat (map loaded store))" and
    all: "set (concat (map loaded store)) = dom vmap"
    by (simp_all add: loadInv_def)
  from new have fresh: "?name \<notin> dom vmap" by (simp add: domIff)
  from i len have take: "take (Suc i) vfiles = take i vfiles @ [?name]"
    by (simp add: take_Suc_conv_app_nth)
  have ptr': "\<exists>p < Suc (length store). (vmap(?name \<mapsto> Some (length store))) name = Some (Some p) \<and>
        loaded ((store @ [\<lparr>batchIndex = i, loaded = [?name]\<rparr>]) ! p) = [name]"
    if "name \<in> insert ?name (dom vmap)" for name
  proof (cases "name = ?name")
    case True
    then show ?thesis by auto
  next
    case False
    with that ptr obtain p where "p < length store" "vmap name = Some (Some p)"
      "loaded (store ! p) = [name]" by auto
    with False show ?thesis by (auto simp: nth_append intro!: exI [of _ p])
  qed
  have pos': "(vmap(?name \<mapsto> Some (length store))) (vfiles ! k) = Some (vocabs[i := Some (length store)] ! k)"
    if "k < Suc i" for k
  proof (cases "k = i")
    case True
    with i show ?thesis by simp
  next
    case False
    with that have k: "k < i" by simp
    from k i len have "take i vfiles ! k \<in> set (take i vfiles)"
      by (intro nth_mem) simp
    with k have "vfiles ! k \<in> set (take i vfiles)" by simp
    with dom fresh have "vfiles ! k \<noteq> ?name" by auto
    with k pos False show ?thesis by simp
  qed
  have "length (vocabs[i := Some (length store)]) = length vfiles" "Suc i \<le> length vfiles"
    using len i by simp_all
  moreover have "dom (vmap(?name \<mapsto> Some (length store))) = set (take (Suc i) vfiles)"
    using dom take by simp
  moreover have "\<forall>name \<in> dom (vmap(?name \<mapsto> Some (length store))).
      \<exists>p < length (store @ [\<lparr>batchIndex = i, loaded = [?name]\<rparr>]).
        (vmap(?name \<mapsto> Some (length store))) name = Some (Some p) \<and>
        loaded ((store @ [\<lparr>batchIndex = i, loaded = [?name]\<rparr>]) ! p) = [name]"
    using ptr' by simp
  moreover have "\<forall>k < Suc i. (vmap(?name \<mapsto> Some (length store))) (vfiles ! k) =
      Some (vocabs[i := Some (length store)] ! k)"
    using pos' by blast
  moreover have "distinct (concat (map loaded (store @ [\<lparr>batchIndex = i, loaded = [?name]\<rparr>])))"
    using dist all fresh by simp
  moreover have "set (concat (map loaded (store @ [\<lparr>batchIndex = i, loaded = [?name]\<rparr>]))) =
      dom (vmap(?name \<mapsto> Some (length store)))"
    using all by simp
  ultimately show ?thesis
    unfolding loadInv_def by blast
qed

lemma loadInv_old:
  assumes inv: "loadInv vfiles i vmap store vocabs" and i: "i < length vocabs"
    and old: "vmap (vfiles ! i) = Some v"
  shows "loadInv vfiles (Suc i) vmap store (vocabs[i := v])"
proof -
  let ?name = "vfiles ! i"
  from inv have len: "length vocabs = length vfiles" and
    dom: "dom vmap = set (take i vfiles)" and
    pos: "\<forall>k < i. vmap (vfiles ! k) = Some (vocabs ! k)"
    by (simp_all add: loadInv_def)
  from old have known: "?name \<in> dom vmap" by (simp add: domIff)
  from i len have take: "take (Suc i) vfiles = take i vfiles @ [?name]"
    by (simp add: take_Suc_conv_app_nth)
  have pos': "vmap (vfiles ! k) = Some (vocabs[i := v] ! k)" if "k < Suc i" for k
    using that pos old i by (cases "k = i") auto
  show ?thesis
    using inv known take pos' i unfolding loadInv_def by auto
qed

lemma loadLoop_inv:
  "loadInv vfiles i vmap store vocabs \<Longrightarrow>
   \<exists>vmap'. loadInv vfiles (length vfiles) vmap' (fst (loadLoop vfiles i vmap store vocabs))
     (snd (loadLoop vfiles i vmap store vocabs))"
proof (induction "length vocabs - i" arbitrary: i vmap store vocabs)
  case 0
  then have "i = length vfiles" "\<not> i < length vocabs" by (auto simp: loadInv_def)
  with 0 show ?case by (auto simp: loadLoop_done)
next
  case (Suc d)
  then have i: "i < length vocabs" by simp
  show ?case
  proof (cases "vmap (vfiles ! i)")
    case None
    have d: "d = length (vocabs[i := Some (length store)]) - Suc i"
      using Suc.hyps(2) by simp
    from Suc.hyps(1) [OF d loadInv_new [OF Suc.prems i None]]
    show ?thesis by (simp add: loadLoop_new [of i vocabs vmap vfiles store, OF i None])
  next
    case (Some v)
    have d: "d = length (vocabs[i := v]) - Suc i"
      using Suc.hyps(2) by simp
    from Suc.hyps(1) [OF d loadInv_old [OF Suc.prems i Some]]
    show ?thesis by (simp add: loadLoop_old [of i vocabs vmap vfiles v store, OF i Some])
  qed
qed

lemma loadInv_init: "loadInv vfiles 0 Map.empty [] (replicate (length vfiles) None)"
  by (simp add: loadInv_def)

text \<open>
  C8. With fewer than two vocabulary files \<open>loadVocabularies\<close> aborts, and so does the
  construction of the service. Otherwise it returns a list as long as the list of file
  names; two positions hold the same pointer exactly when their file names are equal;
  the object at a position has loaded that position's file and nothing else; over the
  whole store every file name was loaded once.
\<close>

theorem loadVocabularies_shares:
  "(length (opt_vocabs options) < 2 \<longrightarrow>
      loadVocabularies options = Inl (Abort ''Insufficient number of vocabularies.'') \<and>
      construct options process heuristic = Inl (Abort ''Insufficient number of vocabularies.'')) \<and>
   (2 \<le> length (opt_vocabs options) \<longrightarrow>
      (\<exists>store vocabs.
         loadVocabularies options = Inr (store, vocabs) \<and>
         length vocabs = length (opt_vocabs options) \<and>
         (\<forall>i < length vocabs. \<forall>j < length vocabs.
            (vocabs ! i = vocabs ! j) = (opt_vocabs options ! i = opt_vocabs options ! j)) \<and>
         (\<forall>i < length vocabs. \<exists>p < length store.
            vocabs ! i = Some p \<and> loaded (store ! p) = [opt_vocabs options ! i]) \<and>
         distinct (concat (map loaded store)) \<and>
         set (concat (map loaded store)) = set (opt_vocabs options)))"
proof (intro conjI impI)
  assume "length (opt_vocabs options) < 2"
  then show "loadVocabularies options = Inl (Abort ''Insufficient number of vocabularies.'')"
    by (simp add: loadVocabularies_def)
  then show "construct options process heuristic = Inl (Abort ''Insufficient number of vocabularies.'')"
    by (simp add: construct_def)
next
  let ?vfiles = "opt_vocabs options"
  let ?res = "loadLoop ?vfiles 0 Map.empty [] (replicate (length ?vfiles) None)"
  assume two: "2 \<le> length ?vfiles"
  then have res: "loadVocabularies options = Inr (fst ?res, snd ?res)"
    by (simp add: loadVocabularies_def Let_def)
  from loadLoop_inv [OF loadInv_init [of ?vfiles]]
  obtain vmap where inv: "loadInv ?vfiles (length ?vfiles) vmap (fst ?res) (snd ?res)" ..
  then have len: "length (snd ?res) = length ?vfiles"
    and ptr: "\<And>name. name \<in> dom vmap \<Longrightarrow>
        \<exists>p < length (fst ?res). vmap name = Some (Some p) \<and> loaded (fst ?res ! p) = [name]"
    and pos: "\<And>k. k < length ?vfiles \<Longrightarrow> vmap (?vfiles ! k) = Some (snd ?res ! k)"
    and dist: "distinct (concat (map loaded (fst ?res)))"
    and all: "set (concat (map loaded (fst ?res))) = set ?vfiles"
    by (simp_all add: loadInv_def)
  have at: "\<exists>p < length (fst ?res). snd ?res ! i = Some p \<and> loaded (fst ?res ! p) = [?vfiles ! i]"
    if "i < length ?vfiles" for i
  proof -
    from pos [OF that] have "?vfiles ! i \<in> dom vmap" by (simp add: domIff)
    from ptr [OF this] pos [OF that] show ?thesis by auto
  qed
  have same: "(snd ?res ! i = snd ?res ! j) = (?vfiles ! i = ?vfiles ! j)"
    if "i < length ?vfiles" "j < length ?vfiles" for i j
  proof
    assume eq: "snd ?res ! i = snd ?res ! j"
    from at [OF that(1)] at [OF that(2)] eq show "?vfiles ! i = ?vfiles ! j" by auto
  next
    assume "?vfiles ! i = ?vfiles ! j"
    with pos [OF that(1)] pos [OF that(2)] show "snd ?res ! i = snd ?res ! j" by simp
  qed
  show "\<exists>store vocabs.
         loadVocabularies options = Inr (store, vocabs) \<and>
         length vocabs = length ?vfiles \<and>
         (\<forall>i < length vocabs. \<forall>j < length vocabs.
            (vocabs ! i = vocabs ! j) = (?vfiles ! i = ?vfiles ! j)) \<and>
         (\<forall>i < length vocabs. \<exists>p < length store.
            vocabs ! i = Some p \<and> loaded (store ! p) = [?vfiles ! i]) \<and>
         distinct (concat (map loaded store)) \<and>
         set (concat (map loaded store)) = set ?vfiles"
    using res len same at dist all by (intro exI [of _ "fst ?res"] exI [of _ "snd ?res"]) simp
qed

theorem loadVocabularies_shares_witness:
  "length (opt_vocabs \<lparr>cpu_threads = 1, capacity_bytes = 8, opt_vocabs = [''v'']\<rparr>) < 2 \<and>
   loadVocabularies \<lparr>cpu_threads = 1, capacity_bytes = 8, opt_vocabs = [''v'']\<rparr> =
     Inl (Abort ''Insufficient number of vocabularies.'') \<and>
   2 \<le> length (opt_vocabs \<lparr>cpu_threads = 1, capacity_bytes = 8, opt_vocabs = [''v'', ''w'', ''v'']\<rparr>) \<and>
   (\<exists>store vocabs.
      loadVocabularies \<lparr>cpu_threads = 1, capacity_bytes = 8, opt_vocabs = [''v'', ''w'', ''v'']\<rparr> =
        Inr (store, vocabs) \<and>
      length vocabs = 3 \<and> vocabs ! 0 = vocabs ! 2 \<and> vocabs ! 0 \<noteq> vocabs ! 1 \<and>
      map loaded store = [[''v''], [''w'']])"
proof -
  let ?one = "\<lparr>cpu_threads = 1, capacity_bytes = 8, opt_vocabs = [''v'']\<rparr>"
  let ?three = "\<lparr>cpu_threads = 1, capacity_bytes = 8, opt_vocabs = [''v'', ''w'', ''v'']\<rparr>"
  have a: "length (opt_vocabs ?one) < 2" by simp
  have b: "2 \<le> length (opt_vocabs ?three)" by simp
  have c: "loadVocabularies ?three =
      Inr ([\<lparr>batchIndex = 0, loaded = [''v'']\<rparr>, \<lparr>batchIndex = 1, loaded = [''w'']\<rparr>],
           [Some 0, Some 1, Some 0])"
    by (simp add: loadVocabularies_def loadLoop.simps emplace_def Let_def)
  from loadVocabularies_shares [of ?one exampleProcess "\<lambda>rs. 1"] a
  have "loadVocabularies ?one = Inl (Abort ''Insufficient number of vocabularies.'')" by blast
  moreover from loadVocabularies_shares [of ?three exampleProcess "\<lambda>rs. 1"] b
  obtain store vocabs where "loadVocabularies ?three = Inr (store, vocabs)" by blast
  ultimately show ?thesis using a b c by simp
qed

section \<open>What each operation changes\<close>

lemma runCallback_eff:
  "runCallback c s =
     s\<lparr>capacityBytes := capacityBytes s + int (cbInputBytes c),
       trackers := (trackers s)[cbTracker c := (trackers s ! cbTracker c)\<lparr>status := SUCCESS\<rparr>]\<rparr>"
  by (cases c) (simp add: setStatus_def Let_def)

lemma fold_runCallback_eff:
  "\<exists>tk. fold runCallback cs s =
     s\<lparr>capacityBytes := capacityBytes s + int (sum_list (map cbInputBytes cs)), trackers := tk\<rparr>"
proof (induction cs arbitrary: s)
  case Nil
  show ?case by (rule exI [of _ "trackers s"]) simp
next
  case (Cons c cs)
  from Cons [of "runCallback c s"] obtain tk where
    "fold runCallback cs (runCallback c s) =
       (runCallback c s)\<lparr>capacityBytes := capacityBytes (runCallback c s) +
          int (sum_list (map cbInputBytes cs)), trackers := tk\<rparr>" ..
  also have "\<dots> = s\<lparr>capacityBytes := capacityBytes s + int (sum_list (map cbInputBytes (c # cs))),
      trackers := tk\<rparr>"
    by (simp add: runCallback_eff)
  finally show ?case
    by (intro exI [of _ tk]) simp
qed

lemma completeRequest_eff:
  "\<exists>tk. completeRequest r s =
     s\<lparr>capacityBytes := capacityBytes s + int (reqBytes r), trackers := tk,
       promises := (promises s)[responsePromise r := Some (Translated (source r))]\<rparr>"
proof -
  obtain tk where
    "fold runCallback (callbacks r) (set_value (responsePromise r) (Translated (source r)) s) =
       (set_value (responsePromise r) (Translated (source r)) s)
         \<lparr>capacityBytes := capacityBytes (set_value (responsePromise r) (Translated (source r)) s) +
            int (sum_list (map cbInputBytes (callbacks r))), trackers := tk\<rparr>"
    using fold_runCallback_eff by blast
  then show ?thesis
    by (intro exI [of _ tk]) (simp add: completeRequest_def set_value_def reqBytes_def)
qed

lemma fold_completeRequest_eff:
  "\<exists>tk pr. fold completeRequest rs s =
     s\<lparr>capacityBytes := capacityBytes s + int (sum_list (map reqBytes rs)), trackers := tk,
       promises := pr\<rparr>"
proof (induction rs arbitrary: s)
  case Nil
  show ?case by (intro exI [of _ "trackers s"] exI [of _ "promises s"]) simp
next
  case (Cons r rs)
  obtain tk where r: "completeRequest r s =
     s\<lparr>capacityBytes := capacityBytes s + int (reqBytes r), trackers := tk,
       promises := (promises s)[responsePromise r := Some (Translated (source r))]\<rparr>"
    using completeRequest_eff by blast
  from Cons [of "completeRequest r s"] obtain tk' pr' where
    "fold completeRequest rs (completeRequest r s) =
       (completeRequest r s)\<lparr>capacityBytes := capacityBytes (completeRequest r s) +
          int (sum_list (map reqBytes rs)), trackers := tk', promises := pr'\<rparr>" by blast
  also have "\<dots> = s\<lparr>capacityBytes := capacityBytes s + int (sum_list (map reqBytes (r # rs))),
      trackers := tk', promises := pr'\<rparr>"
    by (simp add: r)
  finally show ?case
    by (intro exI [of _ tk'] exI [of _ pr']) simp
qed

lemma translateBatch_eff:
  "\<exists>tk pr. translateBatch i b s =
     s\<lparr>capacityBytes := capacityBytes s + int (batchBytes b), trackers := tk, promises := pr,
       trace := trace s @ [EvTranslate i b]\<rparr>"
proof (cases b)
  case Poison
  then show ?thesis
    by (intro exI [of _ "trackers s"] exI [of _ "promises s"]) (simp add: batchBytes_def)
next
  case (Sentences rs)
  obtain tk pr where
    "fold completeRequest rs (s\<lparr>trace := trace s @ [EvTranslate i (Sentences rs)]\<rparr>) =
       (s\<lparr>trace := trace s @ [EvTranslate i (Sentences rs)]\<rparr>)
         \<lparr>capacityBytes := capacityBytes (s\<lparr>trace := trace s @ [EvTranslate i (Sentences rs)]\<rparr>) +
            int (sum_list (map reqBytes rs)), trackers := tk, promises := pr\<rparr>"
    using fold_completeRequest_eff by blast
  with Sentences show ?thesis
    by (intro exI [of _ tk] exI [of _ pr]) (simp add: batchBytes_def)
qed

lemma pull_None: "pull b = None \<longleftrightarrow> pending b = []"
  by (simp add: pull_def Let_def)

lemma pull_Some:
  assumes "pull b = Some (batch, b')"
  shows "\<exists>rs. batch = Sentences rs \<and> rs \<noteq> [] \<and> rs @ pending b' = pending b \<and>
              b' = b\<lparr>pending := pending b'\<rparr>"
  using assms by (auto simp: pull_def Let_def split: if_splits)

lemma drain_eff:
  "\<exists>bs tk pr. drain s =
     s\<lparr>batcher := (batcher s)\<lparr>pending := []\<rparr>,
       capacityBytes := capacityBytes s + int (sum_list (map reqBytes (pending (batcher s)))),
       trackers := tk, promises := pr,
       trace := trace s @ map (EvTranslate 0) bs\<rparr> \<and>
     concat (map batchRequests bs) = pending (batcher s)"
proof (induction s rule: drain.induct)
  case (1 s)
  show ?case
  proof (cases "pull (batcher s)")
    case None
    then have "pending (batcher s) = []" by (simp add: pull_None)
    then have "(batcher s)\<lparr>pending := []\<rparr> = batcher s" by (metis Batcher.surjective Batcher.update_convs(1))
    with None \<open>pending (batcher s) = []\<close> show ?thesis
      by (intro exI [of _ "[]"] exI [of _ "trackers s"] exI [of _ "promises s"])
         (simp add: drain.simps)
  next
    case (Some a)
    obtain batch b' where a: "a = (batch, b')" by (cases a)
    from pull_Some [OF Some [unfolded a]] obtain rs where
      rs: "batch = Sentences rs" "rs \<noteq> []" "rs @ pending b' = pending (batcher s)"
        "b' = (batcher s)\<lparr>pending := pending b'\<rparr>" by blast
    let ?s1 = "s\<lparr>batcher := b'\<rparr>"
    obtain tk pr where t: "translateBatch 0 batch ?s1 =
       ?s1\<lparr>capacityBytes := capacityBytes ?s1 + int (batchBytes batch), trackers := tk,
            promises := pr, trace := trace ?s1 @ [EvTranslate 0 batch]\<rparr>"
      using translateBatch_eff by blast
    from 1 [OF Some a [symmetric]] obtain bs tk' pr' where
      d: "drain (translateBatch 0 batch ?s1) =
        (translateBatch 0 batch ?s1)\<lparr>batcher := (batcher (translateBatch 0 batch ?s1))\<lparr>pending := []\<rparr>,
          capacityBytes := capacityBytes (translateBatch 0 batch ?s1) +
            int (sum_list (map reqBytes (pending (batcher (translateBatch 0 batch ?s1))))),
          trackers := tk', promises := pr',
          trace := trace (translateBatch 0 batch ?s1) @ map (EvTranslate 0) bs\<rparr>"
       and c: "concat (map batchRequests bs) = pending (batcher (translateBatch 0 batch ?s1))"
      by blast
    have b'': "b'\<lparr>pending := []\<rparr> = (batcher s)\<lparr>pending := []\<rparr>"
      by (subst rs(4)) simp
    have "drain s = drain (translateBatch 0 batch ?s1)"
      by (subst drain.simps) (simp add: Some a)
    also note d
    also have "(translateBatch 0 batch ?s1)\<lparr>batcher := (batcher (translateBatch 0 batch ?s1))\<lparr>pending := []\<rparr>,
          capacityBytes := capacityBytes (translateBatch 0 batch ?s1) +
            int (sum_list (map reqBytes (pending (batcher (translateBatch 0 batch ?s1))))),
          trackers := tk', promises := pr',
          trace := trace (translateBatch 0 batch ?s1) @ map (EvTranslate 0) bs\<rparr> =
        s\<lparr>batcher := (batcher s)\<lparr>pending := []\<rparr>,
          capacityBytes := capacityBytes s + int (sum_list (map reqBytes (pending (batcher s)))),
          trackers := tk', promises := pr',
          trace := trace s @ map (EvTranslate 0) (batch # bs)\<rparr>"
      unfolding t using rs(1) rs(3) [symmetric] b'' by (simp add: batchBytes_def)
    finally have eq: "drain s =
        s\<lparr>batcher := (batcher s)\<lparr>pending := []\<rparr>,
          capacityBytes := capacityBytes s + int (sum_list (map reqBytes (pending (batcher s)))),
          trackers := tk', promises := pr',
          trace := trace s @ map (EvTranslate 0) (batch # bs)\<rparr>" .
    have "concat (map batchRequests (batch # bs)) = pending (batcher s)"
      using c [unfolded t] rs(1) rs(3) by simp
    with eq show ?thesis by blast
  qed
qed

lemma produceTo_eff:
  "\<exists>bs. produceTo s =
     s\<lparr>batcher := (batcher s)\<lparr>pending := []\<rparr>,
       pcqueue := pcqueue s @ bs,
       trace := trace s @ map EvProduce bs\<rparr> \<and>
     concat (map batchRequests bs) = pending (batcher s) \<and> Poison \<notin> set bs"
proof (induction s rule: produceTo.induct)
  case (1 s)
  show ?case
  proof (cases "pull (batcher s)")
    case None
    then have "pending (batcher s) = []" by (simp add: pull_None)
    then have "(batcher s)\<lparr>pending := []\<rparr> = batcher s" by (metis Batcher.surjective Batcher.update_convs(1))
    with None \<open>pending (batcher s) = []\<close> show ?thesis
      by (intro exI [of _ "[]"]) (simp add: produceTo.simps)
  next
    case (Some a)
    obtain batch b' where a: "a = (batch, b')" by (cases a)
    from pull_Some [OF Some [unfolded a]] obtain rs where
      rs: "batch = Sentences rs" "rs \<noteq> []" "rs @ pending b' = pending (batcher s)"
        "b' = (batcher s)\<lparr>pending := pending b'\<rparr>" by blast
    let ?s1 = "ProduceSwap batch (s\<lparr>batcher := b'\<rparr>)"
    have t: "?s1 = s\<lparr>batcher := b', pcqueue := pcqueue s @ [batch],
        trace := trace s @ [EvProduce batch]\<rparr>"
      by (simp add: ProduceSwap_def)
    from 1 [OF Some a [symmetric]] obtain bs where
      d: "produceTo ?s1 =
        ?s1\<lparr>batcher := (batcher ?s1)\<lparr>pending := []\<rparr>,
          pcqueue := pcqueue ?s1 @ bs,
          trace := trace ?s1 @ map EvProduce bs\<rparr>"
       and c: "concat (map batchRequests bs) = pending (batcher ?s1)"
       and p: "Poison \<notin> set bs"
      by blast
    have b'': "b'\<lparr>pending := []\<rparr> = (batcher s)\<lparr>pending := []\<rparr>"
      by (subst rs(4)) simp
    have "produceTo s = produceTo ?s1"
      by (subst produceTo.simps) (simp add: Some a)
    also note d
    also have "?s1\<lparr>batcher := (batcher ?s1)\<lparr>pending := []\<rparr>,
          pcqueue := pcqueue ?s1 @ bs,
          trace := trace ?s1 @ map EvProduce bs\<rparr> =
        s\<lparr>batcher := (batcher s)\<lparr>pending := []\<rparr>,
          pcqueue := pcqueue s @ batch # bs,
          trace := trace s @ map EvProduce (batch # bs)\<rparr>"
      unfolding t using b'' by simp
    finally have eq: "produceTo s =
        s\<lparr>batcher := (batcher s)\<lparr>pending := []\<rparr>,
          pcqueue := pcqueue s @ batch # bs,
          trace := trace s @ map EvProduce (batch # bs)\<rparr>" .
    have "concat (map batchRequests (batch # bs)) = pending (batcher s)"
      using c [unfolded t] rs(1) rs(3) by simp
    moreover have "Poison \<notin> set (batch # bs)" using p rs(1) by simp
    ultimately show ?thesis using eq by blast
  qed
qed

lemma prepareRequest_eff:
  "\<exists>tk. prepareRequest input l tracker promise inputBytes s =
     s\<lparr>requestId := requestId s + 1,
       batcher := (batcher s)\<lparr>pending := pending (batcher s) @
         [(newRequest input l promise s)\<lparr>callbacks := [Callback tracker inputBytes]\<rparr>]\<rparr>,
       trackers := tk,
       trace := trace s @ [EvProcess input, EvNewRequest (newRequest input l promise s)]\<rparr>"
  by (rule exI [of _ "trackers (prepareRequest input l tracker promise inputBytes s)"])
     (simp add: prepareRequest_def Let_def split_beta track_def setStatus_def addWholeRequest_def
       newRequest_def)

section \<open>Reading the trace\<close>

lemma issued_append: "issued (xs @ ys) = issued xs @ issued ys"
  by (induction xs rule: issued.induct) simp_all

lemma produced_append: "produced (xs @ ys) = produced xs @ produced ys"
  by (induction xs rule: produced.induct) simp_all

lemma joined_append: "joined (xs @ ys) = joined xs @ joined ys"
  by (induction xs rule: joined.induct) simp_all

lemma read_translations:
  "issued (map (EvTranslate i) bs) = []" "produced (map (EvTranslate i) bs) = []"
  "joined (map (EvTranslate i) bs) = []" "EvAsync \<notin> set (map (EvTranslate i) bs)"
  "translated (map (EvTranslate i) bs) = map (Pair i) bs"
  by (induction bs) auto

lemma read_productions:
  "issued (map EvProduce bs) = []" "produced (map EvProduce bs) = bs"
  "joined (map EvProduce bs) = []" "EvAsync \<notin> set (map EvProduce bs)"
  "translated (map EvProduce bs) = []"
  by (induction bs) auto

section \<open>Futures and promises\<close>

lemma promises_completeRequest:
  "promises (completeRequest r s) =
     (promises s)[responsePromise r := Some (Translated (source r))]"
proof -
  obtain tk where "completeRequest r s =
     s\<lparr>capacityBytes := capacityBytes s + int (reqBytes r), trackers := tk,
       promises := (promises s)[responsePromise r := Some (Translated (source r))]\<rparr>"
    using completeRequest_eff by blast
  then show ?thesis by simp
qed

lemma resolved_completeRequest:
  "resolved p s \<or> (responsePromise r = p \<and> p < length (promises s)) \<Longrightarrow>
   resolved p (completeRequest r s)"
  by (cases "responsePromise r = p") (auto simp: resolved_def promises_completeRequest)

lemma length_promises_completeRequest:
  "length (promises (completeRequest r s)) = length (promises s)"
  by (simp add: promises_completeRequest)

lemma length_promises_fold_completeRequest:
  "length (promises (fold completeRequest rs s)) = length (promises s)"
  by (induction rs arbitrary: s) (simp_all add: length_promises_completeRequest)

lemma resolved_fold_completeRequest:
  "resolved p s \<or> (\<exists>r \<in> set rs. responsePromise r = p \<and> p < length (promises s)) \<Longrightarrow>
   resolved p (fold completeRequest rs s)"
proof (induction rs arbitrary: s)
  case Nil
  then show ?case by simp
next
  case (Cons r rs)
  have "resolved p (completeRequest r s) \<or>
      (\<exists>r' \<in> set rs. responsePromise r' = p \<and> p < length (promises (completeRequest r s)))"
    using Cons.prems resolved_completeRequest [of p s r]
    by (auto simp: length_promises_completeRequest)
  from Cons.IH [OF this] show ?case by simp
qed

lemma length_promises_translateBatch:
  "length (promises (translateBatch i b s)) = length (promises s)"
  by (cases b) (simp_all add: length_promises_fold_completeRequest)

lemma resolved_translateBatch:
  "resolved p s \<or> (\<exists>r \<in> set (batchRequests b). responsePromise r = p \<and> p < length (promises s)) \<Longrightarrow>
   resolved p (translateBatch i b s)"
proof (cases b)
  case Poison
  assume "resolved p s \<or> (\<exists>r \<in> set (batchRequests b). responsePromise r = p \<and> p < length (promises s))"
  with Poison show ?thesis by (simp add: resolved_def)
next
  case (Sentences rs)
  assume "resolved p s \<or> (\<exists>r \<in> set (batchRequests b). responsePromise r = p \<and> p < length (promises s))"
  with Sentences have "resolved p (s\<lparr>trace := trace s @ [EvTranslate i (Sentences rs)]\<rparr>) \<or>
      (\<exists>r \<in> set rs. responsePromise r = p \<and>
         p < length (promises (s\<lparr>trace := trace s @ [EvTranslate i (Sentences rs)]\<rparr>)))"
    by (simp add: resolved_def)
  from resolved_fold_completeRequest [OF this] Sentences show ?thesis by simp
qed

text \<open>After the loop every request that was pending has its promise resolved.\<close>

lemma resolved_drain:
  "resolved p s \<or> (\<exists>r \<in> set (pending (batcher s)). responsePromise r = p \<and> p < length (promises s)) \<Longrightarrow>
   resolved p (drain s)"
proof (induction s rule: drain.induct)
  case (1 s)
  show ?case
  proof (cases "pull (batcher s)")
    case None
    then have "pending (batcher s) = []" by (simp add: pull_None)
    with 1(2) None show ?thesis by (simp add: drain.simps)
  next
    case (Some a)
    obtain batch b' where a: "a = (batch, b')" by (cases a)
    from pull_Some [OF Some [unfolded a]] obtain rs where
      rs: "batch = Sentences rs" "rs @ pending b' = pending (batcher s)" by blast
    let ?s1 = "translateBatch 0 batch (s\<lparr>batcher := b'\<rparr>)"
    have d: "drain s = drain ?s1"
      by (subst drain.simps) (simp add: Some a)
    from 1(2) consider "resolved p s"
      | r where "r \<in> set rs" "responsePromise r = p" "p < length (promises s)"
      | r where "r \<in> set (pending b')" "responsePromise r = p" "p < length (promises s)"
      using rs(2) [symmetric] by auto
    then have "resolved p ?s1 \<or>
        (\<exists>r \<in> set (pending (batcher ?s1)). responsePromise r = p \<and> p < length (promises ?s1))"
    proof cases
      case 1
      then have "resolved p (s\<lparr>batcher := b'\<rparr>)" by (simp add: resolved_def)
      then show ?thesis by (simp add: resolved_translateBatch)
    next
      case 2
      then have "\<exists>r \<in> set (batchRequests batch). responsePromise r = p \<and>
          p < length (promises (s\<lparr>batcher := b'\<rparr>))"
        using rs(1) by auto
      then show ?thesis by (simp add: resolved_translateBatch)
    next
      case 3
      then show ?thesis
        by (auto simp: batcher_translateBatch length_promises_translateBatch)
    qed
    from 1(1) [OF Some a [symmetric] this] d show ?thesis by simp
  qed
qed

lemma futures_update_status:
  "map future (xs[t := (xs ! t)\<lparr>status := c\<rparr>]) = map future xs"
  by (induction xs arbitrary: t) (auto simp: nth_Cons' split: nat.splits)

lemma futures_update_tracked:
  "map future (xs[t := (xs ! t)\<lparr>tracked := c\<rparr>]) = map future xs"
  by (induction xs arbitrary: t) (auto simp: nth_Cons' split: nat.splits)

lemma futures_runCallback: "map future (trackers (runCallback c s)) = map future (trackers s)"
  by (simp add: runCallback_eff futures_update_status)

lemma futures_fold_runCallback:
  "map future (trackers (fold runCallback cs s)) = map future (trackers s)"
  by (induction cs arbitrary: s) (simp_all add: futures_runCallback)

lemma futures_completeRequest:
  "map future (trackers (completeRequest r s)) = map future (trackers s)"
  by (simp add: completeRequest_def futures_fold_runCallback set_value_def)

lemma futures_fold_completeRequest:
  "map future (trackers (fold completeRequest rs s)) = map future (trackers s)"
  by (induction rs arbitrary: s) (simp_all add: futures_completeRequest)

lemma futures_translateBatch:
  "map future (trackers (translateBatch i b s)) = map future (trackers s)"
  by (cases b) (simp_all add: futures_fold_completeRequest)

lemma futures_drain: "map future (trackers (drain s)) = map future (trackers s)"
proof (induction s rule: drain.induct)
  case (1 s)
  show ?case
  proof (cases "pull (batcher s)")
    case None
    then show ?thesis by (simp add: drain.simps)
  next
    case (Some a)
    obtain batch b' where a: "a = (batch, b')" by (cases a)
    have "drain s = drain (translateBatch 0 batch (s\<lparr>batcher := b'\<rparr>))"
      by (subst drain.simps) (simp add: Some a)
    with 1 [OF Some a [symmetric]] show ?thesis
      by (simp add: futures_translateBatch)
  qed
qed

lemma futures_setStatus: "map future (trackers (setStatus t c s)) = map future (trackers s)"
  by (simp add: setStatus_def futures_update_status)

lemma futures_track: "map future (trackers (track t r s)) = map future (trackers s)"
  by (simp add: track_def futures_update_tracked)

lemma futures_prepareRequest:
  "map future (trackers (prepareRequest input l t p n s)) = map future (trackers s)"
  by (simp add: prepareRequest_def Let_def split_beta futures_setStatus futures_track)

section \<open>Joining the workers\<close>

lemma exitAt_exited: "exited (ws ! k) \<Longrightarrow> exitAt k ws = ws"
proof (cases "k < length ws")
  case True
  assume "exited (ws ! k)"
  then have "Worker (translatorIdx (ws ! k)) True = ws ! k"
    by (cases "ws ! k") simp
  then show ?thesis by (simp add: exitAt_def)
next
  case False
  then show ?thesis by (simp add: exitAt_def not_less list_update_beyond)
qed

lemma length_exitAt: "length (exitAt k ws) = length ws"
  by (simp add: exitAt_def)

lemma translatorIdx_exitAt: "map translatorIdx (exitAt k ws) = map translatorIdx ws"
proof (cases "k < length ws")
  case True
  then have "(map translatorIdx ws)[k := translatorIdx (ws ! k)] = map translatorIdx ws"
    by (metis list_update_id nth_map)
  then show ?thesis by (simp add: exitAt_def map_update)
next
  case False
  then show ?thesis by (simp add: exitAt_def not_less list_update_beyond)
qed

lemma exited_exitAt:
  "j < length ws \<Longrightarrow> exited (exitAt k ws ! j) = (exited (ws ! j) \<or> j = k)"
  by (cases "j = k") (simp_all add: exitAt_def)

lemma length_fold_exitAt: "length (fold exitAt ks ws) = length ws"
  by (induction ks arbitrary: ws) (simp_all add: length_exitAt)

lemma translatorIdx_fold_exitAt: "map translatorIdx (fold exitAt ks ws) = map translatorIdx ws"
  by (induction ks arbitrary: ws) (simp_all add: translatorIdx_exitAt)

lemma exited_fold_exitAt:
  "j < length ws \<Longrightarrow> exited (fold exitAt ks ws ! j) = (exited (ws ! j) \<or> j \<in> set ks)"
  by (induction ks arbitrary: ws) (auto simp: length_exitAt exited_exitAt)

lemma all_exited_fold_exitAt: "list_all exited (fold exitAt [0..<length ws] ws)"
  by (simp add: list_all_length length_fold_exitAt exited_fold_exitAt)

lemma running_by_index:
  "length (filter (\<lambda>k. \<not> exited (ws ! k)) [0..<length ws]) =
   length (filter (\<lambda>w. \<not> exited w) ws)"
proof -
  have "filter (\<lambda>w. \<not> exited w) (map ((!) ws) [0..<length ws]) =
      map ((!) ws) (filter ((\<lambda>w. \<not> exited w) \<circ> (!) ws) [0..<length ws])"
    by (rule filter_map)
  then have "length (filter (\<lambda>w. \<not> exited w) ws) =
      length (filter ((\<lambda>w. \<not> exited w) \<circ> (!) ws) [0..<length ws])"
    by (simp add: map_nth)
  then show ?thesis by (simp add: comp_def)
qed

lemma translators_by_index:
  "map (\<lambda>k. translatorIdx (ws ! k)) [0..<length ws] = map translatorIdx ws"
proof -
  have "map translatorIdx (map ((!) ws) [0..<length ws]) = map translatorIdx ws"
    by (simp only: map_nth)
  then show ?thesis by (simp add: comp_def)
qed

lemma consumeFrom_eff:
  "Poison \<in> set q \<Longrightarrow>
   \<exists>bs q' tk pr. consumeFrom k q s =
     Some (s\<lparr>capacityBytes := capacityBytes s + int (sum_list (map batchBytes bs)),
             pcqueue := q', workers := exitAt k (workers s),
             trackers := tk, promises := pr,
             trace := trace s @ map (EvTranslate (translatorIdx (workers s ! k))) bs\<rparr>) \<and>
     q = bs @ Poison # q' \<and> Poison \<notin> set bs"
proof (induction q arbitrary: s)
  case Nil
  then show ?case by simp
next
  case (Cons b q)
  let ?i = "translatorIdx (workers s ! k)"
  show ?case
  proof (cases b)
    case Poison
    show ?thesis
      by (intro exI [of _ "[]"] exI [of _ q] exI [of _ "trackers s"] exI [of _ "promises s"])
         (simp add: Poison exitAt_def)
  next
    case (Sentences rs)
    let ?s1 = "s\<lparr>pcqueue := q\<rparr>"
    obtain tk pr where t: "translateBatch ?i b ?s1 =
       ?s1\<lparr>capacityBytes := capacityBytes ?s1 + int (batchBytes b), trackers := tk,
            promises := pr, trace := trace ?s1 @ [EvTranslate ?i b]\<rparr>"
      using translateBatch_eff by blast
    let ?s2 = "translateBatch ?i b ?s1"
    from Cons.prems Sentences have "Poison \<in> set q" by simp
    from Cons.IH [OF this, of ?s2] obtain bs q' tk' pr' where
      d: "consumeFrom k q ?s2 =
        Some (?s2\<lparr>capacityBytes := capacityBytes ?s2 + int (sum_list (map batchBytes bs)),
             pcqueue := q', workers := exitAt k (workers ?s2),
             trackers := tk', promises := pr',
             trace := trace ?s2 @ map (EvTranslate (translatorIdx (workers ?s2 ! k))) bs\<rparr>)"
      and q: "q = bs @ Poison # q'" and p: "Poison \<notin> set bs"
      by blast
    have "consumeFrom k (b # q) s = consumeFrom k q ?s2"
      by (simp add: Sentences)
    also note d
    also have "Some (?s2\<lparr>capacityBytes := capacityBytes ?s2 + int (sum_list (map batchBytes bs)),
             pcqueue := q', workers := exitAt k (workers ?s2),
             trackers := tk', promises := pr',
             trace := trace ?s2 @ map (EvTranslate (translatorIdx (workers ?s2 ! k))) bs\<rparr>) =
        Some (s\<lparr>capacityBytes := capacityBytes s + int (sum_list (map batchBytes (b # bs))),
             pcqueue := q', workers := exitAt k (workers s),
             trackers := tk', promises := pr',
             trace := trace s @ map (EvTranslate ?i) (b # bs)\<rparr>)"
      unfolding t by simp
    finally have eq: "consumeFrom k (b # q) s =
        Some (s\<lparr>capacityBytes := capacityBytes s + int (sum_list (map batchBytes (b # bs))),
             pcqueue := q', workers := exitAt k (workers s),
             trackers := tk', promises := pr',
             trace := trace s @ map (EvTranslate ?i) (b # bs)\<rparr>)" .
    have "b # q = (b # bs) @ Poison # q'" "Poison \<notin> set (b # bs)"
      using q p Sentences by simp_all
    with eq show ?thesis by blast
  qed
qed

lemma fold_ProduceSwap:
  "fold (\<lambda>worker. ProduceSwap Poison) ws s =
     s\<lparr>pcqueue := pcqueue s @ replicate (length ws) Poison,
       trace := trace s @ map EvProduce (replicate (length ws) Poison)\<rparr>"
proof (induction ws arbitrary: s)
  case Nil
  show ?case by simp
next
  case (Cons w ws)
  have "fold (\<lambda>worker. ProduceSwap Poison) (w # ws) s =
      fold (\<lambda>worker. ProduceSwap Poison) ws (ProduceSwap Poison s)" by simp
  also note Cons
  also have "(ProduceSwap Poison s)\<lparr>pcqueue := pcqueue (ProduceSwap Poison s) @ replicate (length ws) Poison,
       trace := trace (ProduceSwap Poison s) @ map EvProduce (replicate (length ws) Poison)\<rparr> =
     s\<lparr>pcqueue := pcqueue s @ replicate (length (w # ws)) Poison,
       trace := trace s @ map EvProduce (replicate (length (w # ws)) Poison)\<rparr>"
    by (simp add: ProduceSwap_def replicate_app_Cons_same)
  finally show ?case .
qed

lemma count_list_replicate_same: "count_list (replicate n x) x = n"
  by (induction n) simp_all

text \<open>
  What a join does when the queue holds a poison: a worker still in its loop takes the
  batches up to and with the first poison, translates those before the poison, and exits.
\<close>

lemma join_eff:
  assumes "0 < count_list (pcqueue s) Poison"
  shows "\<exists>pre q' tk pr tr. join k s =
     Some (s\<lparr>capacityBytes := capacityBytes s + int (sum_list (map batchBytes pre)),
             pcqueue := q', workers := exitAt k (workers s),
             trackers := tk, promises := pr,
             trace := trace s @ EvJoin (translatorIdx (workers s ! k)) # tr\<rparr>) \<and>
     pcqueue s = pre @ q' \<and>
     count_list pre Poison = (if exited (workers s ! k) then 0 else 1) \<and>
     issued tr = [] \<and> produced tr = [] \<and> joined tr = [] \<and> EvAsync \<notin> set tr \<and>
     map snd (translated tr) = filter (\<lambda>b. b \<noteq> Poison) pre"
proof (cases "exited (workers s ! k)")
  case True
  then show ?thesis
    by (intro exI [of _ "[]"] exI [of _ "pcqueue s"] exI [of _ "trackers s"]
        exI [of _ "promises s"]) (simp add: join_def exitAt_exited)
next
  case False
  let ?i = "translatorIdx (workers s ! k)"
  let ?s1 = "s\<lparr>trace := trace s @ [EvJoin ?i]\<rparr>"
  have "Poison \<in> set (pcqueue ?s1)"
    using assms count_list_0_iff [of "pcqueue s" Poison] by auto
  from consumeFrom_eff [OF this, of k ?s1] obtain bs q' tk pr where
    c: "consumeFrom k (pcqueue ?s1) ?s1 =
     Some (?s1\<lparr>capacityBytes := capacityBytes ?s1 + int (sum_list (map batchBytes bs)),
             pcqueue := q', workers := exitAt k (workers ?s1),
             trackers := tk, promises := pr,
             trace := trace ?s1 @ map (EvTranslate (translatorIdx (workers ?s1 ! k))) bs\<rparr>)"
    and q: "pcqueue ?s1 = bs @ Poison # q'" and p: "Poison \<notin> set bs"
    by blast
  from p have f: "filter (\<lambda>b. b \<noteq> Poison) bs = bs" by (induction bs) auto
  have "join k s = Some (s\<lparr>capacityBytes := capacityBytes s + int (sum_list (map batchBytes (bs @ [Poison]))),
             pcqueue := q', workers := exitAt k (workers s),
             trackers := tk, promises := pr,
             trace := trace s @ EvJoin ?i # map (EvTranslate ?i) bs\<rparr>)"
    using False c by (simp add: join_def Let_def batchBytes_def)
  moreover have "pcqueue s = (bs @ [Poison]) @ q'" using q by simp
  moreover have "count_list (bs @ [Poison]) Poison = (if exited (workers s ! k) then 0 else 1)"
    using p False by simp
  moreover have "map snd (translated (map (EvTranslate ?i) bs)) =
      filter (\<lambda>b. b \<noteq> Poison) (bs @ [Poison])"
    using f by (simp add: read_translations comp_def)
  ultimately show ?thesis
    using read_translations [of ?i bs] by blast
qed

lemma translated_append: "translated (xs @ ys) = translated xs @ translated ys"
  by (induction xs rule: translated.induct) simp_all

lemma joinAll_eff:
  "distinct ks \<Longrightarrow> length ks \<le> count_list (pcqueue s) Poison \<Longrightarrow>
   \<exists>pre q' tk pr tr. joinAll ks s =
     Some (s\<lparr>capacityBytes := capacityBytes s + int (sum_list (map batchBytes pre)),
             pcqueue := q', workers := fold exitAt ks (workers s),
             trackers := tk, promises := pr,
             trace := trace s @ tr\<rparr>) \<and>
     pcqueue s = pre @ q' \<and>
     count_list pre Poison = length (filter (\<lambda>k. \<not> exited (workers s ! k)) ks) \<and>
     issued tr = [] \<and> produced tr = [] \<and>
     joined tr = map (\<lambda>k. translatorIdx (workers s ! k)) ks \<and>
     EvAsync \<notin> set tr \<and>
     map snd (translated tr) = filter (\<lambda>b. b \<noteq> Poison) pre"
proof (induction ks arbitrary: s)
  case Nil
  show ?case
    by (intro exI [of _ "[]"] exI [of _ "pcqueue s"] exI [of _ "trackers s"]
        exI [of _ "promises s"]) simp
next
  case (Cons k ks)
  let ?i = "translatorIdx (workers s ! k)"
  from Cons.prems have "0 < count_list (pcqueue s) Poison" by simp
  from join_eff [OF this, of k] obtain pre1 q1 tk1 pr1 tr1 where
    j: "join k s = Some (s\<lparr>capacityBytes := capacityBytes s + int (sum_list (map batchBytes pre1)),
             pcqueue := q1, workers := exitAt k (workers s),
             trackers := tk1, promises := pr1,
             trace := trace s @ EvJoin ?i # tr1\<rparr>)"
    and q1: "pcqueue s = pre1 @ q1"
    and c1: "count_list pre1 Poison = (if exited (workers s ! k) then 0 else 1)"
    and r1: "issued tr1 = []" "produced tr1 = []" "joined tr1 = []" "EvAsync \<notin> set tr1"
      "map snd (translated tr1) = filter (\<lambda>b. b \<noteq> Poison) pre1"
    by blast
  let ?s1 = "s\<lparr>capacityBytes := capacityBytes s + int (sum_list (map batchBytes pre1)),
             pcqueue := q1, workers := exitAt k (workers s),
             trackers := tk1, promises := pr1,
             trace := trace s @ EvJoin ?i # tr1\<rparr>"
  from Cons.prems have d: "distinct ks" and nk: "k \<notin> set ks" by simp_all
  have same: "exitAt k (workers s) ! k' = workers s ! k'" if "k' \<in> set ks" for k'
  proof -
    from that nk have "k \<noteq> k'" by auto
    then show ?thesis by (simp add: exitAt_def)
  qed
  from Cons.prems(2) q1 c1 have "length ks \<le> count_list (pcqueue ?s1) Poison"
    by (simp split: if_splits)
  from Cons.IH [OF d this] obtain pre2 q' tk pr tr2 where
    a: "joinAll ks ?s1 = Some (?s1\<lparr>capacityBytes := capacityBytes ?s1 + int (sum_list (map batchBytes pre2)),
             pcqueue := q', workers := fold exitAt ks (workers ?s1),
             trackers := tk, promises := pr,
             trace := trace ?s1 @ tr2\<rparr>)"
    and q2: "pcqueue ?s1 = pre2 @ q'"
    and c2: "count_list pre2 Poison = length (filter (\<lambda>k. \<not> exited (workers ?s1 ! k)) ks)"
    and r2: "issued tr2 = []" "produced tr2 = []"
      "joined tr2 = map (\<lambda>k. translatorIdx (workers ?s1 ! k)) ks"
      "EvAsync \<notin> set tr2"
      "map snd (translated tr2) = filter (\<lambda>b. b \<noteq> Poison) pre2"
    by blast
  have f2: "filter (\<lambda>k. \<not> exited (workers ?s1 ! k)) ks = filter (\<lambda>k. \<not> exited (workers s ! k)) ks"
    by (rule filter_cong) (simp_all add: same)
  have m2: "map (\<lambda>k. translatorIdx (workers ?s1 ! k)) ks = map (\<lambda>k. translatorIdx (workers s ! k)) ks"
    by (rule map_cong) (simp_all add: same)
  let ?tr = "EvJoin ?i # tr1 @ tr2"
  have "joinAll (k # ks) s = joinAll ks ?s1" by (simp add: j)
  also note a
  also have "Some (?s1\<lparr>capacityBytes := capacityBytes ?s1 + int (sum_list (map batchBytes pre2)),
             pcqueue := q', workers := fold exitAt ks (workers ?s1),
             trackers := tk, promises := pr,
             trace := trace ?s1 @ tr2\<rparr>) =
      Some (s\<lparr>capacityBytes := capacityBytes s + int (sum_list (map batchBytes (pre1 @ pre2))),
             pcqueue := q', workers := fold exitAt (k # ks) (workers s),
             trackers := tk, promises := pr,
             trace := trace s @ ?tr\<rparr>)"
    by simp
  finally have eq: "joinAll (k # ks) s =
      Some (s\<lparr>capacityBytes := capacityBytes s + int (sum_list (map batchBytes (pre1 @ pre2))),
             pcqueue := q', workers := fold exitAt (k # ks) (workers s),
             trackers := tk, promises := pr,
             trace := trace s @ ?tr\<rparr>)" .
  have "pcqueue s = (pre1 @ pre2) @ q'" using q1 q2 by simp
  moreover have "count_list (pre1 @ pre2) Poison =
      length (filter (\<lambda>k. \<not> exited (workers s ! k)) (k # ks))"
    using c1 c2 f2 by simp
  moreover have "issued ?tr = []" "produced ?tr = []"
    "joined ?tr = map (\<lambda>k. translatorIdx (workers s ! k)) (k # ks)"
    "EvAsync \<notin> set ?tr"
    "map snd (translated ?tr) = filter (\<lambda>b. b \<noteq> Poison) (pre1 @ pre2)"
    using r1 r2 m2 by (simp_all add: issued_append produced_append joined_append translated_append)
  ultimately show ?case using eq by blast
qed

lemma stopLoops_eff:
  "\<exists>pre q' tk pr tr. stopLoops s =
     Some (s\<lparr>capacityBytes := capacityBytes s + int (sum_list (map batchBytes pre)),
             pcqueue := q', workers := fold exitAt [0..<length (workers s)] (workers s),
             trackers := tk, promises := pr,
             trace := trace s @ replicate (length (workers s)) (EvProduce Poison) @ tr\<rparr>) \<and>
     pcqueue s @ replicate (length (workers s)) Poison = pre @ q' \<and>
     count_list pre Poison = length (filter (\<lambda>w. \<not> exited w) (workers s)) \<and>
     issued tr = [] \<and> produced tr = [] \<and> joined tr = map translatorIdx (workers s) \<and>
     EvAsync \<notin> set tr \<and>
     map snd (translated tr) = filter (\<lambda>b. b \<noteq> Poison) pre"
proof -
  let ?n = "length (workers s)"
  let ?s1 = "s\<lparr>pcqueue := pcqueue s @ replicate ?n Poison,
       trace := trace s @ replicate ?n (EvProduce Poison)\<rparr>"
  have "length [0..<?n] \<le> count_list (pcqueue ?s1) Poison"
    by (simp add: count_list_replicate_same)
  from joinAll_eff [OF distinct_upt this] obtain pre q' tk pr tr where
    a: "joinAll [0..<?n] ?s1 = Some (?s1\<lparr>capacityBytes := capacityBytes ?s1 + int (sum_list (map batchBytes pre)),
             pcqueue := q', workers := fold exitAt [0..<?n] (workers ?s1),
             trackers := tk, promises := pr,
             trace := trace ?s1 @ tr\<rparr>)"
    and q: "pcqueue ?s1 = pre @ q'"
    and c: "count_list pre Poison = length (filter (\<lambda>k. \<not> exited (workers ?s1 ! k)) [0..<?n])"
    and r: "issued tr = []" "produced tr = []"
      "joined tr = map (\<lambda>k. translatorIdx (workers ?s1 ! k)) [0..<?n]"
      "EvAsync \<notin> set tr" "map snd (translated tr) = filter (\<lambda>b. b \<noteq> Poison) pre"
    by blast
  have "stopLoops s = Some (s\<lparr>capacityBytes := capacityBytes s + int (sum_list (map batchBytes pre)),
             pcqueue := q', workers := fold exitAt [0..<?n] (workers s),
             trackers := tk, promises := pr,
             trace := trace s @ replicate ?n (EvProduce Poison) @ tr\<rparr>)"
    by (simp add: stopLoops_def fold_ProduceSwap a)
  moreover have "pcqueue s @ replicate ?n Poison = pre @ q'" using q by simp
  moreover have "count_list pre Poison = length (filter (\<lambda>w. \<not> exited w) (workers s))"
    using c running_by_index [of "workers s"] by simp
  moreover have "joined tr = map translatorIdx (workers s)"
    using r(3) translators_by_index [of "workers s"] by simp
  ultimately show ?thesis using r by blast
qed

lemma stopLoops_without_workers: "workers s = [] \<Longrightarrow> stopLoops s = Some s"
  by (simp add: stopLoops_def)

lemma stop_without_workers: "workers s = [] \<Longrightarrow> stop s = Some s"
proof -
  assume w: "workers s = []"
  have "s\<lparr>workers := workers s\<rparr> = s" by simp
  with w have "s\<lparr>workers := []\<rparr> = s" by simp
  with w show ?thesis by (simp add: stop_def stopLoops_without_workers)
qed

lemma stop_eff:
  "\<exists>pre q' tk pr tr. stop s =
     Some (s\<lparr>capacityBytes := capacityBytes s + int (sum_list (map batchBytes pre)),
             pcqueue := q', workers := [], trackers := tk, promises := pr,
             trace := trace s @ replicate (length (workers s)) (EvProduce Poison) @ tr\<rparr>) \<and>
     pcqueue s @ replicate (length (workers s)) Poison = pre @ q' \<and>
     issued tr = [] \<and> produced tr = [] \<and> joined tr = map translatorIdx (workers s) \<and>
     EvAsync \<notin> set tr"
proof -
  from stopLoops_eff [of s] obtain pre q' tk pr tr where
    a: "stopLoops s =
     Some (s\<lparr>capacityBytes := capacityBytes s + int (sum_list (map batchBytes pre)),
             pcqueue := q', workers := fold exitAt [0..<length (workers s)] (workers s),
             trackers := tk, promises := pr,
             trace := trace s @ replicate (length (workers s)) (EvProduce Poison) @ tr\<rparr>)"
    and r: "pcqueue s @ replicate (length (workers s)) Poison = pre @ q'"
      "issued tr = []" "produced tr = []" "joined tr = map translatorIdx (workers s)"
      "EvAsync \<notin> set tr"
    by blast
  have "stop s =
     Some (s\<lparr>capacityBytes := capacityBytes s + int (sum_list (map batchBytes pre)),
             pcqueue := q', workers := [], trackers := tk, promises := pr,
             trace := trace s @ replicate (length (workers s)) (EvProduce Poison) @ tr\<rparr>)"
    by (simp add: stop_def a)
  with r show ?thesis by blast
qed

lemma queue_emptied:
  assumes "q @ replicate n Poison = pre @ q'" "count_list pre Poison = n" "Poison \<notin> set q"
    "0 < n"
  shows "q' = []"
proof (rule ccontr)
  assume ne: "q' \<noteq> []"
  have "count_list (q @ replicate n Poison) Poison = count_list (pre @ q') Poison"
    by (simp only: assms(1))
  with assms(2,3) have "count_list q' Poison = 0"
    by (simp add: count_list_replicate_same)
  then have np: "Poison \<notin> set q'" by (simp add: count_list_0_iff)
  have "last (q @ replicate n Poison) = last (pre @ q')" by (simp only: assms(1))
  with ne assms(4) have "last q' = Poison" by simp
  with ne np show False using last_in_set by metis
qed

section \<open>Shutdown\<close>

lemma if_then_True: "(C \<Longrightarrow> P) \<Longrightarrow> (if C then P else True)"
  by simp

text \<open>
  C6. \<open>stop\<close> returns. Its two loops (\<open>stopLoops\<close>) first push one poison batch for each
  worker in the worker list, and nothing else, and then join each worker of the list, in
  order. When the loops are over every worker of the list has left its loop (each has
  exited, the list is as long as before and holds the same translators), the workers
  have taken a prefix \<open>pre\<close> off the queue that holds exactly one poison for each worker
  that was still running, and they have translated the other batches of that prefix, in
  order, and nothing else. If all the workers were running and the queue held no poison
  before, the queue is empty afterwards. Only then is the worker list cleared. A second
  \<open>stop\<close> leaves the state as it is. With no workers the first \<open>stop\<close> already leaves the
  state as it is: nothing is pushed, nobody is joined. The destructor is \<open>stop\<close>.
\<close>

theorem stop_joins_all:
  "\<exists>s2 pre tr. stopLoops s = Some s2 \<and> stop s = Some (s2\<lparr>workers := []\<rparr>) \<and>
      trace s2 = trace s @ replicate (length (workers s)) (EvProduce Poison) @ tr \<and>
      produced tr = [] \<and> joined tr = map translatorIdx (workers s) \<and>
      length (workers s2) = length (workers s) \<and> list_all exited (workers s2) \<and>
      map translatorIdx (workers s2) = map translatorIdx (workers s) \<and>
      pcqueue s @ replicate (length (workers s)) Poison = pre @ pcqueue s2 \<and>
      count_list pre Poison = length (filter (\<lambda>w. \<not> exited w) (workers s)) \<and>
      map snd (translated tr) = filter (\<lambda>b. b \<noteq> Poison) pre \<and>
      (if workers s \<noteq> [] \<and> Poison \<notin> set (pcqueue s) \<and>
          list_all (\<lambda>w. \<not> exited w) (workers s)
       then pcqueue s2 = [] else True) \<and>
      stop (s2\<lparr>workers := []\<rparr>) = Some (s2\<lparr>workers := []\<rparr>) \<and>
      destroy s = stop s \<and>
      (if workers s = [] then s2 = s else True)"
proof -
  let ?n = "length (workers s)"
  from stopLoops_eff [of s] obtain pre q' tk pr tr where
    a: "stopLoops s =
     Some (s\<lparr>capacityBytes := capacityBytes s + int (sum_list (map batchBytes pre)),
             pcqueue := q', workers := fold exitAt [0..<?n] (workers s),
             trackers := tk, promises := pr,
             trace := trace s @ replicate ?n (EvProduce Poison) @ tr\<rparr>)"
    and q: "pcqueue s @ replicate ?n Poison = pre @ q'"
    and c: "count_list pre Poison = length (filter (\<lambda>w. \<not> exited w) (workers s))"
    and r: "produced tr = []" "joined tr = map translatorIdx (workers s)"
      "map snd (translated tr) = filter (\<lambda>b. b \<noteq> Poison) pre"
    by blast
  let ?s2 = "s\<lparr>capacityBytes := capacityBytes s + int (sum_list (map batchBytes pre)),
             pcqueue := q', workers := fold exitAt [0..<?n] (workers s),
             trackers := tk, promises := pr,
             trace := trace s @ replicate ?n (EvProduce Poison) @ tr\<rparr>"
  have 1: "stop s = Some (?s2\<lparr>workers := []\<rparr>)" by (simp add: stop_def a)
  have 2: "trace ?s2 = trace s @ replicate ?n (EvProduce Poison) @ tr" by simp
  have 3: "length (workers ?s2) = ?n" by (simp add: length_fold_exitAt)
  have 4: "list_all exited (workers ?s2)" by (simp add: all_exited_fold_exitAt)
  have 5: "map translatorIdx (workers ?s2) = map translatorIdx (workers s)"
    by (simp add: translatorIdx_fold_exitAt)
  have 6: "pcqueue s @ replicate ?n Poison = pre @ pcqueue ?s2" using q by simp
  have 7: "pcqueue ?s2 = []"
    if "workers s \<noteq> [] \<and> Poison \<notin> set (pcqueue s) \<and> list_all (\<lambda>w. \<not> exited w) (workers s)"
  proof -
    from that have "filter (\<lambda>w. \<not> exited w) (workers s) = workers s"
      by (simp add: list_all_iff)
    with c have "count_list pre Poison = ?n" by simp
    moreover from that have "0 < ?n" by simp
    ultimately have "q' = []" using q that by (intro queue_emptied [of "pcqueue s" ?n pre]) simp_all
    then show ?thesis by simp
  qed
  have "workers (?s2\<lparr>workers := []\<rparr>) = []" by simp
  then have 8: "stop (?s2\<lparr>workers := []\<rparr>) = Some (?s2\<lparr>workers := []\<rparr>)"
    by (rule stop_without_workers)
  have 9: "destroy s = stop s" by (simp add: destroy_def)
  have 10: "?s2 = s" if "workers s = []"
    using a stopLoops_without_workers [OF that] by simp
  show ?thesis
    apply (rule exI [of _ ?s2], rule exI [of _ pre], rule exI [of _ tr])
    apply (intro conjI)
                  apply (fact a 1 2 r 3 4 5 6 c 8 9)+
             apply (rule if_then_True, erule 7)
             apply (fact a 1 2 r 3 4 5 6 c 8 9)+
    apply (rule if_then_True, erule 10)
    done
qed

theorem stop_joins_all_witness:
  "\<exists>s2 pre tr. stopLoops (exampleService 2 10) = Some s2 \<and>
      stop (exampleService 2 10) = Some (s2\<lparr>workers := []\<rparr>) \<and>
      trace s2 = [EvProduce Poison, EvProduce Poison] @ tr \<and>
      produced tr = [] \<and> joined tr = [0, 1] \<and>
      length (workers s2) = 2 \<and> list_all exited (workers s2) \<and>
      map translatorIdx (workers s2) = [0, 1] \<and>
      [Poison, Poison] = pre @ pcqueue s2 \<and> count_list pre Poison = 2 \<and>
      map snd (translated tr) = filter (\<lambda>b. b \<noteq> Poison) pre \<and>
      pcqueue s2 = [] \<and>
      stop (s2\<lparr>workers := []\<rparr>) = Some (s2\<lparr>workers := []\<rparr>)"
proof -
  have w: "workers (exampleService 2 10) = [Worker 0 False, Worker 1 False]"
    by (simp add: exampleService_def upt_rec)
  have t: "trace (exampleService 2 10) = []"
    by (simp add: exampleService_def)
  have q: "pcqueue (exampleService 2 10) = []"
    by (simp add: exampleService_def)
  from stop_joins_all [of "exampleService 2 10"] show ?thesis
    unfolding w t q
    by (simp add: numeral_2_eq_2) (elim exE conjE, intro exI conjI, assumption+)
qed

section \<open>What a submission changes\<close>

lemma as_size_t_nonneg: "0 \<le> c \<Longrightarrow> as_size_t c = c"
  by (simp add: as_size_t_def)

lemma as_size_t_fits: "int n \<le> c \<Longrightarrow> int n \<le> as_size_t c"
  by (simp add: as_size_t_def)

lemma as_size_t_not_negative: "0 \<le> as_size_t c"
  by (simp add: as_size_t_def)

lemma newRequest_frame:
  "newRequest input l p (s\<lparr>background := bg\<rparr>) = newRequest input l p s"
  "newRequest input l p (s\<lparr>admitted := ad\<rparr>) = newRequest input l p s"
  "newRequest input l p (s\<lparr>capacityBytes := c\<rparr>) = newRequest input l p s"
  "newRequest input l p (s\<lparr>trackers := tk\<rparr>) = newRequest input l p s"
  "newRequest input l p (s\<lparr>promises := pr\<rparr>) = newRequest input l p s"
  "newRequest input l p (s\<lparr>trace := tr\<rparr>) = newRequest input l p s"
  by (simp_all add: newRequest_def)

lemma prepare_drain_eff:
  "\<exists>bs tk pr. drain (prepareRequest input l t p n s) =
     s\<lparr>requestId := requestId s + 1,
       batcher := (batcher s)\<lparr>pending := []\<rparr>,
       capacityBytes := capacityBytes s +
         int (sum_list (map reqBytes (pending (batcher s)))) + int n,
       trackers := tk, promises := pr,
       trace := trace s @ EvProcess input # EvNewRequest (newRequest input l p s) #
         map (EvTranslate 0) bs\<rparr> \<and>
     concat (map batchRequests bs) = pending (batcher s) @
       [(newRequest input l p s)\<lparr>callbacks := [Callback t n]\<rparr>]"
proof -
  let ?r = "newRequest input l p s"
  obtain tk where e: "prepareRequest input l t p n s =
     s\<lparr>requestId := requestId s + 1,
       batcher := (batcher s)\<lparr>pending := pending (batcher s) @ [?r\<lparr>callbacks := [Callback t n]\<rparr>]\<rparr>,
       trackers := tk,
       trace := trace s @ [EvProcess input, EvNewRequest ?r]\<rparr>"
    using prepareRequest_eff by blast
  let ?s3 = "prepareRequest input l t p n s"
  obtain bs tk' pr' where d: "drain ?s3 =
     ?s3\<lparr>batcher := (batcher ?s3)\<lparr>pending := []\<rparr>,
       capacityBytes := capacityBytes ?s3 + int (sum_list (map reqBytes (pending (batcher ?s3)))),
       trackers := tk', promises := pr',
       trace := trace ?s3 @ map (EvTranslate 0) bs\<rparr>"
    and c: "concat (map batchRequests bs) = pending (batcher ?s3)"
    using drain_eff by blast
  note d
  also have "?s3\<lparr>batcher := (batcher ?s3)\<lparr>pending := []\<rparr>,
       capacityBytes := capacityBytes ?s3 + int (sum_list (map reqBytes (pending (batcher ?s3)))),
       trackers := tk', promises := pr',
       trace := trace ?s3 @ map (EvTranslate 0) bs\<rparr> =
     s\<lparr>requestId := requestId s + 1,
       batcher := (batcher s)\<lparr>pending := []\<rparr>,
       capacityBytes := capacityBytes s +
         int (sum_list (map reqBytes (pending (batcher s)))) + int n,
       trackers := tk', promises := pr',
       trace := trace s @ EvProcess input # EvNewRequest ?r # map (EvTranslate 0) bs\<rparr>"
    unfolding e by (simp add: reqBytes_def)
  finally have eq: "drain ?s3 =
     s\<lparr>requestId := requestId s + 1,
       batcher := (batcher s)\<lparr>pending := []\<rparr>,
       capacityBytes := capacityBytes s +
         int (sum_list (map reqBytes (pending (batcher s)))) + int n,
       trackers := tk', promises := pr',
       trace := trace s @ EvProcess input # EvNewRequest ?r # map (EvTranslate 0) bs\<rparr>" .
  have "concat (map batchRequests bs) = pending (batcher s) @ [?r\<lparr>callbacks := [Callback t n]\<rparr>]"
    using c unfolding e by simp
  with eq show ?thesis by blast
qed

lemma queueInBackground_eff:
  "\<exists>bs tk. queueInBackground task s =
     s\<lparr>requestId := requestId s + 1,
       batcher := (batcher s)\<lparr>pending := []\<rparr>,
       pcqueue := pcqueue s @ bs,
       trackers := tk,
       trace := trace s @ EvProcess (tInput task) #
         EvNewRequest (newRequest (tInput task) (tLineNumberBegin task) (tPromise task) s) #
         map EvProduce bs\<rparr> \<and>
     concat (map batchRequests bs) = pending (batcher s) @
       [(newRequest (tInput task) (tLineNumberBegin task) (tPromise task) s)
          \<lparr>callbacks := [Callback (tTracker task) (tInputBytes task)]\<rparr>] \<and>
     Poison \<notin> set bs"
proof (cases task)
  case (Task input l t p n)
  let ?r = "newRequest input l p s"
  obtain tk where e: "prepareRequest input l t p n s =
     s\<lparr>requestId := requestId s + 1,
       batcher := (batcher s)\<lparr>pending := pending (batcher s) @ [?r\<lparr>callbacks := [Callback t n]\<rparr>]\<rparr>,
       trackers := tk,
       trace := trace s @ [EvProcess input, EvNewRequest ?r]\<rparr>"
    using prepareRequest_eff by blast
  let ?s1 = "prepareRequest input l t p n s"
  obtain bs where d: "produceTo ?s1 =
     ?s1\<lparr>batcher := (batcher ?s1)\<lparr>pending := []\<rparr>,
       pcqueue := pcqueue ?s1 @ bs,
       trace := trace ?s1 @ map EvProduce bs\<rparr>"
    and c: "concat (map batchRequests bs) = pending (batcher ?s1)" and np: "Poison \<notin> set bs"
    using produceTo_eff by blast
  have "queueInBackground task s = produceTo ?s1" by (simp add: Task)
  also note d
  also have "?s1\<lparr>batcher := (batcher ?s1)\<lparr>pending := []\<rparr>,
       pcqueue := pcqueue ?s1 @ bs,
       trace := trace ?s1 @ map EvProduce bs\<rparr> =
     s\<lparr>requestId := requestId s + 1,
       batcher := (batcher s)\<lparr>pending := []\<rparr>,
       pcqueue := pcqueue s @ bs,
       trackers := tk,
       trace := trace s @ EvProcess input # EvNewRequest ?r # map EvProduce bs\<rparr>"
    unfolding e by simp
  finally have eq: "queueInBackground task s =
     s\<lparr>requestId := requestId s + 1,
       batcher := (batcher s)\<lparr>pending := []\<rparr>,
       pcqueue := pcqueue s @ bs,
       trackers := tk,
       trace := trace s @ EvProcess input # EvNewRequest ?r # map EvProduce bs\<rparr>" .
  have "concat (map batchRequests bs) = pending (batcher s) @ [?r\<lparr>callbacks := [Callback t n]\<rparr>]"
    using c unfolding e by simp
  with eq np show ?thesis unfolding Task by (intro exI [of _ bs] exI [of _ tk]) simp
qed

lemma translatePart_rejected:
  "as_size_t (capacityBytes s) < int (length input) \<Longrightarrow>
   translatePart input l s =
     (length (trackers s),
      s\<lparr>trackers := trackers s @ [\<lparr>status = REJECTED_MEMORY,
                                     future = Some (length (promises s)), tracked = None\<rparr>],
        promises := promises s @ [Some EmptyResponse]\<rparr>)"
  by (simp add: translatePart_def Let_def set_value_def setStatus_def)

lemma translatePart_launched:
  assumes "int (length input) \<le> as_size_t (capacityBytes s)" "0 < numWorkers s"
  shows "\<exists>bs tk. translatePart input l s =
     (length (trackers s),
      s\<lparr>requestId := requestId s + 1,
        batcher := (batcher s)\<lparr>pending := []\<rparr>,
        capacityBytes := capacityBytes s - int (length input),
        pcqueue := pcqueue s @ bs,
        trackers := tk,
        promises := promises s @ [None],
        trace := trace s @ EvAsync # EvProcess input #
          EvNewRequest (newRequest input l (length (promises s)) s) # map EvProduce bs\<rparr>) \<and>
     concat (map batchRequests bs) = pending (batcher s) @
       [(newRequest input l (length (promises s)) s)
          \<lparr>callbacks := [Callback (length (trackers s)) (length input)]\<rparr>] \<and>
     Poison \<notin> set bs"
proof -
  let ?t = "length (trackers s)" and ?p = "length (promises s)" and ?n = "length input"
  let ?s2 = "s\<lparr>trackers := trackers s @ [\<lparr>status = UNSET, future = Some ?p, tracked = None\<rparr>],
        promises := promises s @ [None],
        capacityBytes := capacityBytes s - int ?n,
        trace := trace s @ [EvAsync]\<rparr>"
  let ?task = "Task input l ?t ?p ?n"
  let ?r = "newRequest input l ?p s"
  have r: "newRequest input l ?p ?s2 = ?r" by (simp add: newRequest_def)
  from queueInBackground_eff [of ?task ?s2] obtain bs tk where
    e: "queueInBackground ?task ?s2 =
     ?s2\<lparr>requestId := requestId ?s2 + 1,
       batcher := (batcher ?s2)\<lparr>pending := []\<rparr>,
       pcqueue := pcqueue ?s2 @ bs,
       trackers := tk,
       trace := trace ?s2 @ EvProcess (tInput ?task) #
         EvNewRequest (newRequest (tInput ?task) (tLineNumberBegin ?task) (tPromise ?task) ?s2) #
         map EvProduce bs\<rparr>"
    and c: "concat (map batchRequests bs) = pending (batcher ?s2) @
       [(newRequest (tInput ?task) (tLineNumberBegin ?task) (tPromise ?task) ?s2)
          \<lparr>callbacks := [Callback (tTracker ?task) (tInputBytes ?task)]\<rparr>]"
    and np: "Poison \<notin> set bs"
    by blast
  have "translatePart input l s = (?t, queueInBackground ?task ?s2)"
    using assms by (simp add: translatePart_def Let_def del: queueInBackground.simps)
  also note e
  also have "(?t, ?s2\<lparr>requestId := requestId ?s2 + 1,
       batcher := (batcher ?s2)\<lparr>pending := []\<rparr>,
       pcqueue := pcqueue ?s2 @ bs,
       trackers := tk,
       trace := trace ?s2 @ EvProcess (tInput ?task) #
         EvNewRequest (newRequest (tInput ?task) (tLineNumberBegin ?task) (tPromise ?task) ?s2) #
         map EvProduce bs\<rparr>) =
     (?t, s\<lparr>requestId := requestId s + 1,
        batcher := (batcher s)\<lparr>pending := []\<rparr>,
        capacityBytes := capacityBytes s - int ?n,
        pcqueue := pcqueue s @ bs,
        trackers := tk,
        promises := promises s @ [None],
        trace := trace s @ EvAsync # EvProcess input # EvNewRequest ?r # map EvProduce bs\<rparr>)"
    unfolding Task.sel r by simp
  finally have eq: "translatePart input l s =
     (?t, s\<lparr>requestId := requestId s + 1,
        batcher := (batcher s)\<lparr>pending := []\<rparr>,
        capacityBytes := capacityBytes s - int ?n,
        pcqueue := pcqueue s @ bs,
        trackers := tk,
        promises := promises s @ [None],
        trace := trace s @ EvAsync # EvProcess input # EvNewRequest ?r # map EvProduce bs\<rparr>)" .
  have "concat (map batchRequests bs) = pending (batcher s) @
      [?r\<lparr>callbacks := [Callback ?t ?n]\<rparr>]"
    using c unfolding Task.sel r by simp
  with eq np show ?thesis by blast
qed

lemma translatePart_synchronous:
  assumes "int (length input) \<le> as_size_t (capacityBytes s)" "numWorkers s = 0"
  shows "\<exists>bs tk pr. translatePart input l s =
     (length (trackers s),
      s\<lparr>requestId := requestId s + 1,
        batcher := (batcher s)\<lparr>pending := []\<rparr>,
        capacityBytes := capacityBytes s + int (sum_list (map reqBytes (pending (batcher s)))),
        trackers := tk, promises := pr,
        trace := trace s @ EvProcess input #
          EvNewRequest (newRequest input l (length (promises s)) s) # map (EvTranslate 0) bs\<rparr>) \<and>
     concat (map batchRequests bs) = pending (batcher s) @
       [(newRequest input l (length (promises s)) s)
          \<lparr>callbacks := [Callback (length (trackers s)) (length input)]\<rparr>]"
proof -
  let ?t = "length (trackers s)" and ?p = "length (promises s)" and ?n = "length input"
  let ?s2 = "s\<lparr>trackers := trackers s @ [\<lparr>status = UNSET, future = Some ?p, tracked = None\<rparr>],
        promises := promises s @ [None],
        capacityBytes := capacityBytes s - int ?n\<rparr>"
  let ?r = "newRequest input l ?p s"
  have r: "newRequest input l ?p ?s2 = ?r" by (simp add: newRequest_def)
  from prepare_drain_eff [of input l ?t ?p ?n ?s2] obtain bs tk pr where
    d: "drain (prepareRequest input l ?t ?p ?n ?s2) =
     ?s2\<lparr>requestId := requestId ?s2 + 1,
       batcher := (batcher ?s2)\<lparr>pending := []\<rparr>,
       capacityBytes := capacityBytes ?s2 +
         int (sum_list (map reqBytes (pending (batcher ?s2)))) + int ?n,
       trackers := tk, promises := pr,
       trace := trace ?s2 @ EvProcess input # EvNewRequest (newRequest input l ?p ?s2) #
         map (EvTranslate 0) bs\<rparr>"
    and c: "concat (map batchRequests bs) = pending (batcher ?s2) @
       [(newRequest input l ?p ?s2)\<lparr>callbacks := [Callback ?t ?n]\<rparr>]"
    by blast
  have "translatePart input l s = (?t, drain (prepareRequest input l ?t ?p ?n ?s2))"
    using assms by (simp add: translatePart_def Let_def)
  also note d
  also have "(?t, ?s2\<lparr>requestId := requestId ?s2 + 1,
       batcher := (batcher ?s2)\<lparr>pending := []\<rparr>,
       capacityBytes := capacityBytes ?s2 +
         int (sum_list (map reqBytes (pending (batcher ?s2)))) + int ?n,
       trackers := tk, promises := pr,
       trace := trace ?s2 @ EvProcess input # EvNewRequest (newRequest input l ?p ?s2) #
         map (EvTranslate 0) bs\<rparr>) =
     (?t, s\<lparr>requestId := requestId s + 1,
        batcher := (batcher s)\<lparr>pending := []\<rparr>,
        capacityBytes := capacityBytes s + int (sum_list (map reqBytes (pending (batcher s)))),
        trackers := tk, promises := pr,
        trace := trace s @ EvProcess input # EvNewRequest ?r # map (EvTranslate 0) bs\<rparr>)"
    unfolding r by simp
  finally have eq: "translatePart input l s =
     (?t, s\<lparr>requestId := requestId s + 1,
        batcher := (batcher s)\<lparr>pending := []\<rparr>,
        capacityBytes := capacityBytes s + int (sum_list (map reqBytes (pending (batcher s)))),
        trackers := tk, promises := pr,
        trace := trace s @ EvProcess input # EvNewRequest ?r # map (EvTranslate 0) bs\<rparr>)" .
  have "concat (map batchRequests bs) = pending (batcher s) @ [?r\<lparr>callbacks := [Callback ?t ?n]\<rparr>]"
    using c unfolding r by simp
  with eq show ?thesis by blast
qed

lemma translate_snd:
  "\<exists>tk. snd (translate input s) = (snd (translatePart input 0 s))\<lparr>trackers := tk\<rparr>"
  by (simp add: translate_def Let_def split_beta) blast

lemma admit_rejected:
  "as_size_t (capacityBytes s) < int (length input) \<Longrightarrow>
   admit input l s =
     (length (trackers s),
      s\<lparr>trackers := trackers s @ [\<lparr>status = REJECTED_MEMORY,
                                     future = Some (length (promises s)), tracked = None\<rparr>],
        promises := promises s @ [Some EmptyResponse]\<rparr>)"
  by (simp add: admit_def Let_def set_value_def setStatus_def)

lemma admit_accepted:
  "int (length input) \<le> as_size_t (capacityBytes s) \<Longrightarrow>
   admit input l s =
     (length (trackers s),
      s\<lparr>trackers := trackers s @ [\<lparr>status = UNSET, future = Some (length (promises s)),
                                     tracked = None\<rparr>],
        promises := promises s @ [None],
        admitted := admitted s @ [Caller input l (length (trackers s)) (length (promises s))]\<rparr>)"
  by (simp add: admit_def Let_def)

lemma proceed_launched:
  "0 < numWorkers s \<Longrightarrow>
   proceed c s =
     s\<lparr>capacityBytes := capacityBytes s - int (length (cInput c)),
       background := background s @
         [Task (cInput c) (cLineNumberBegin c) (cTracker c) (cPromise c) (length (cInput c))],
       trace := trace s @ [EvAsync]\<rparr>"
  by (cases c) (simp add: Let_def)

lemma proceed_synchronous:
  assumes "numWorkers s = 0"
  shows "\<exists>bs tk pr. proceed c s =
     s\<lparr>requestId := requestId s + 1,
       batcher := (batcher s)\<lparr>pending := []\<rparr>,
       capacityBytes := capacityBytes s + int (sum_list (map reqBytes (pending (batcher s)))),
       trackers := tk, promises := pr,
       trace := trace s @ EvProcess (cInput c) #
         EvNewRequest (newRequest (cInput c) (cLineNumberBegin c) (cPromise c) s) #
         map (EvTranslate 0) bs\<rparr> \<and>
     concat (map batchRequests bs) = pending (batcher s) @
       [(newRequest (cInput c) (cLineNumberBegin c) (cPromise c) s)
          \<lparr>callbacks := [Callback (cTracker c) (length (cInput c))]\<rparr>]"
proof (cases c)
  case (Caller input l t p)
  let ?n = "length input"
  let ?s2 = "s\<lparr>capacityBytes := capacityBytes s - int ?n\<rparr>"
  let ?r = "newRequest input l p s"
  have r: "newRequest input l p ?s2 = ?r" by (simp add: newRequest_def)
  from prepare_drain_eff [of input l t p ?n ?s2] obtain bs tk pr where
    d: "drain (prepareRequest input l t p ?n ?s2) =
     ?s2\<lparr>requestId := requestId ?s2 + 1,
       batcher := (batcher ?s2)\<lparr>pending := []\<rparr>,
       capacityBytes := capacityBytes ?s2 +
         int (sum_list (map reqBytes (pending (batcher ?s2)))) + int ?n,
       trackers := tk, promises := pr,
       trace := trace ?s2 @ EvProcess input # EvNewRequest (newRequest input l p ?s2) #
         map (EvTranslate 0) bs\<rparr>"
    and c: "concat (map batchRequests bs) = pending (batcher ?s2) @
       [(newRequest input l p ?s2)\<lparr>callbacks := [Callback t ?n]\<rparr>]"
    by blast
  have "proceed c s = drain (prepareRequest input l t p ?n ?s2)"
    using assms by (simp add: Caller Let_def)
  also note d
  also have "?s2\<lparr>requestId := requestId ?s2 + 1,
       batcher := (batcher ?s2)\<lparr>pending := []\<rparr>,
       capacityBytes := capacityBytes ?s2 +
         int (sum_list (map reqBytes (pending (batcher ?s2)))) + int ?n,
       trackers := tk, promises := pr,
       trace := trace ?s2 @ EvProcess input # EvNewRequest (newRequest input l p ?s2) #
         map (EvTranslate 0) bs\<rparr> =
     s\<lparr>requestId := requestId s + 1,
        batcher := (batcher s)\<lparr>pending := []\<rparr>,
        capacityBytes := capacityBytes s + int (sum_list (map reqBytes (pending (batcher s)))),
        trackers := tk, promises := pr,
        trace := trace s @ EvProcess input # EvNewRequest ?r # map (EvTranslate 0) bs\<rparr>"
    unfolding r by simp
  finally have eq: "proceed c s =
     s\<lparr>requestId := requestId s + 1,
        batcher := (batcher s)\<lparr>pending := []\<rparr>,
        capacityBytes := capacityBytes s + int (sum_list (map reqBytes (pending (batcher s)))),
        trackers := tk, promises := pr,
        trace := trace s @ EvProcess input # EvNewRequest ?r # map (EvTranslate 0) bs\<rparr>" .
  have "concat (map batchRequests bs) = pending (batcher s) @ [?r\<lparr>callbacks := [Callback t ?n]\<rparr>]"
    using c unfolding r by simp
  with eq show ?thesis unfolding Caller by (intro exI [of _ bs] exI [of _ tk] exI [of _ pr]) simp
qed

section \<open>The steps of a run, case by case\<close>

lemma admitStep_rejected:
  "as_size_t (capacityBytes s) < int (length input) \<Longrightarrow>
   \<exists>tk. admitStep input s =
     s\<lparr>trackers := tk, promises := promises s @ [Some EmptyResponse]\<rparr>"
  by (rule exI [of _ "trackers (admitStep input s)"])
     (simp add: admitStep_def admit_rejected moveFuture_def)

lemma admitStep_accepted:
  "int (length input) \<le> as_size_t (capacityBytes s) \<Longrightarrow>
   admitStep input s =
     s\<lparr>trackers := trackers s @ [\<lparr>status = UNSET, future = Some (length (promises s)),
                                    tracked = None\<rparr>],
       promises := promises s @ [None],
       admitted := admitted s @ [Caller input 0 (length (trackers s)) (length (promises s))]\<rparr>"
  by (simp add: admitStep_def admit_accepted)

lemma proceedStep_launched:
  assumes "k < length (admitted s)" "0 < numWorkers s"
  shows "proceedStep k s =
     Some (s\<lparr>capacityBytes := capacityBytes s - int (length (cInput (admitted s ! k))),
             admitted := take k (admitted s) @ drop (Suc k) (admitted s),
             background := background s @
               [Task (cInput (admitted s ! k)) (cLineNumberBegin (admitted s ! k))
                  (cTracker (admitted s ! k)) (cPromise (admitted s ! k))
                  (length (cInput (admitted s ! k)))],
             trace := trace s @ [EvAsync]\<rparr>)"
  using assms by (simp add: proceedStep_def Let_def proceed_launched)

lemma proceedStep_synchronous:
  assumes "k < length (admitted s)" "numWorkers s = 0"
  shows "\<exists>bs tk pr. proceedStep k s =
     Some (s\<lparr>requestId := requestId s + 1,
             batcher := (batcher s)\<lparr>pending := []\<rparr>,
             capacityBytes := capacityBytes s +
               int (sum_list (map reqBytes (pending (batcher s)))),
             trackers := tk, promises := pr,
             admitted := take k (admitted s) @ drop (Suc k) (admitted s),
             trace := trace s @ EvProcess (cInput (admitted s ! k)) #
               EvNewRequest (newRequest (cInput (admitted s ! k))
                 (cLineNumberBegin (admitted s ! k)) (cPromise (admitted s ! k)) s) #
               map (EvTranslate 0) bs\<rparr>) \<and>
     concat (map batchRequests bs) = pending (batcher s) @
       [(newRequest (cInput (admitted s ! k)) (cLineNumberBegin (admitted s ! k))
           (cPromise (admitted s ! k)) s)
          \<lparr>callbacks := [Callback (cTracker (admitted s ! k))
                            (length (cInput (admitted s ! k)))]\<rparr>]"
proof -
  let ?c = "admitted s ! k"
  let ?s0 = "s\<lparr>admitted := take k (admitted s) @ drop (Suc k) (admitted s)\<rparr>"
  have n: "numWorkers ?s0 = 0" using assms(2) by simp
  from proceed_synchronous [OF n, of ?c] obtain bs tk pr where
    e: "proceed ?c ?s0 =
     ?s0\<lparr>requestId := requestId ?s0 + 1,
       batcher := (batcher ?s0)\<lparr>pending := []\<rparr>,
       capacityBytes := capacityBytes ?s0 + int (sum_list (map reqBytes (pending (batcher ?s0)))),
       trackers := tk, promises := pr,
       trace := trace ?s0 @ EvProcess (cInput ?c) #
         EvNewRequest (newRequest (cInput ?c) (cLineNumberBegin ?c) (cPromise ?c) ?s0) #
         map (EvTranslate 0) bs\<rparr>"
    and c: "concat (map batchRequests bs) = pending (batcher ?s0) @
       [(newRequest (cInput ?c) (cLineNumberBegin ?c) (cPromise ?c) ?s0)
          \<lparr>callbacks := [Callback (cTracker ?c) (length (cInput ?c))]\<rparr>]"
    by blast
  have "proceedStep k s = Some (moveFuture (cTracker ?c) (proceed ?c ?s0))"
    using assms by (simp add: proceedStep_def Let_def)
  also have "\<dots> = Some (s\<lparr>requestId := requestId s + 1,
             batcher := (batcher s)\<lparr>pending := []\<rparr>,
             capacityBytes := capacityBytes s +
               int (sum_list (map reqBytes (pending (batcher s)))),
             trackers := tk[cTracker ?c := (tk ! cTracker ?c)\<lparr>future := None\<rparr>],
             promises := pr,
             admitted := take k (admitted s) @ drop (Suc k) (admitted s),
             trace := trace s @ EvProcess (cInput ?c) #
               EvNewRequest (newRequest (cInput ?c) (cLineNumberBegin ?c) (cPromise ?c) s) #
               map (EvTranslate 0) bs\<rparr>)"
    unfolding e newRequest_frame by (simp add: moveFuture_def)
  finally have eq: "proceedStep k s = Some (s\<lparr>requestId := requestId s + 1,
             batcher := (batcher s)\<lparr>pending := []\<rparr>,
             capacityBytes := capacityBytes s +
               int (sum_list (map reqBytes (pending (batcher s)))),
             trackers := tk[cTracker ?c := (tk ! cTracker ?c)\<lparr>future := None\<rparr>],
             promises := pr,
             admitted := take k (admitted s) @ drop (Suc k) (admitted s),
             trace := trace s @ EvProcess (cInput ?c) #
               EvNewRequest (newRequest (cInput ?c) (cLineNumberBegin ?c) (cPromise ?c) s) #
               map (EvTranslate 0) bs\<rparr>)" .
  have "concat (map batchRequests bs) = pending (batcher s) @
       [(newRequest (cInput ?c) (cLineNumberBegin ?c) (cPromise ?c) s)
          \<lparr>callbacks := [Callback (cTracker ?c) (length (cInput ?c))]\<rparr>]"
    using c unfolding newRequest_frame by simp
  with eq show ?thesis by blast
qed

lemma callStep_rejected:
  "as_size_t (capacityBytes s) < int (length input) \<Longrightarrow>
   \<exists>tk. callStep input s =
     Some (s\<lparr>trackers := tk, promises := promises s @ [Some EmptyResponse]\<rparr>)"
  using admitStep_rejected [of s input] by (simp add: callStep_def)

lemma callStep_launched:
  assumes "int (length input) \<le> as_size_t (capacityBytes s)" "0 < numWorkers s"
  shows "callStep input s =
     Some (s\<lparr>capacityBytes := capacityBytes s - int (length input),
             trackers := trackers s @ [\<lparr>status = UNSET, future = Some (length (promises s)),
                                          tracked = None\<rparr>],
             promises := promises s @ [None],
             background := background s @
               [Task input 0 (length (trackers s)) (length (promises s)) (length input)],
             trace := trace s @ [EvAsync]\<rparr>)"
proof -
  let ?s1 = "admitStep input s"
  let ?k = "length (admitted s)"
  have a: "?s1 = s\<lparr>trackers := trackers s @ [\<lparr>status = UNSET, future = Some (length (promises s)),
                                    tracked = None\<rparr>],
       promises := promises s @ [None],
       admitted := admitted s @ [Caller input 0 (length (trackers s)) (length (promises s))]\<rparr>"
    using assms(1) by (rule admitStep_accepted)
  have k: "?k < length (admitted ?s1)" and n: "0 < numWorkers ?s1"
    using assms(2) by (simp_all add: a)
  have "callStep input s = proceedStep ?k ?s1"
    using assms(1) by (simp add: callStep_def)
  also note proceedStep_launched [OF k n]
  finally show ?thesis by (simp add: a)
qed

lemma callStep_synchronous:
  assumes "int (length input) \<le> as_size_t (capacityBytes s)" "numWorkers s = 0"
  shows "\<exists>bs tk pr. callStep input s =
     Some (s\<lparr>requestId := requestId s + 1,
             batcher := (batcher s)\<lparr>pending := []\<rparr>,
             capacityBytes := capacityBytes s +
               int (sum_list (map reqBytes (pending (batcher s)))),
             trackers := tk, promises := pr,
             trace := trace s @ EvProcess input #
               EvNewRequest (newRequest input 0 (length (promises s)) s) #
               map (EvTranslate 0) bs\<rparr>) \<and>
     concat (map batchRequests bs) = pending (batcher s) @
       [(newRequest input 0 (length (promises s)) s)
          \<lparr>callbacks := [Callback (length (trackers s)) (length input)]\<rparr>]"
proof -
  let ?s1 = "admitStep input s"
  let ?k = "length (admitted s)"
  let ?c = "Caller input 0 (length (trackers s)) (length (promises s))"
  have a: "?s1 = s\<lparr>trackers := trackers s @ [\<lparr>status = UNSET, future = Some (length (promises s)),
                                    tracked = None\<rparr>],
       promises := promises s @ [None],
       admitted := admitted s @ [?c]\<rparr>"
    using assms(1) by (rule admitStep_accepted)
  have k: "?k < length (admitted ?s1)" and n: "numWorkers ?s1 = 0"
    using assms(2) by (simp_all add: a)
  have c: "admitted ?s1 ! ?k = ?c" by (simp add: a)
  have r: "newRequest input 0 (length (promises s)) ?s1 = newRequest input 0 (length (promises s)) s"
    by (simp add: a newRequest_def)
  have p: "pending (batcher ?s1) = pending (batcher s)" by (simp add: a)
  from proceedStep_synchronous [OF k n] obtain bs tk pr where
    e: "proceedStep ?k ?s1 =
     Some (?s1\<lparr>requestId := requestId ?s1 + 1,
             batcher := (batcher ?s1)\<lparr>pending := []\<rparr>,
             capacityBytes := capacityBytes ?s1 +
               int (sum_list (map reqBytes (pending (batcher ?s1)))),
             trackers := tk, promises := pr,
             admitted := take ?k (admitted ?s1) @ drop (Suc ?k) (admitted ?s1),
             trace := trace ?s1 @ EvProcess (cInput (admitted ?s1 ! ?k)) #
               EvNewRequest (newRequest (cInput (admitted ?s1 ! ?k))
                 (cLineNumberBegin (admitted ?s1 ! ?k)) (cPromise (admitted ?s1 ! ?k)) ?s1) #
               map (EvTranslate 0) bs\<rparr>)"
    and q: "concat (map batchRequests bs) = pending (batcher ?s1) @
       [(newRequest (cInput (admitted ?s1 ! ?k)) (cLineNumberBegin (admitted ?s1 ! ?k))
           (cPromise (admitted ?s1 ! ?k)) ?s1)
          \<lparr>callbacks := [Callback (cTracker (admitted ?s1 ! ?k))
                            (length (cInput (admitted ?s1 ! ?k)))]\<rparr>]"
    by blast
  have "callStep input s = proceedStep ?k ?s1"
    using assms(1) by (simp add: callStep_def)
  also note e
  also have "Some (?s1\<lparr>requestId := requestId ?s1 + 1,
             batcher := (batcher ?s1)\<lparr>pending := []\<rparr>,
             capacityBytes := capacityBytes ?s1 +
               int (sum_list (map reqBytes (pending (batcher ?s1)))),
             trackers := tk, promises := pr,
             admitted := take ?k (admitted ?s1) @ drop (Suc ?k) (admitted ?s1),
             trace := trace ?s1 @ EvProcess (cInput (admitted ?s1 ! ?k)) #
               EvNewRequest (newRequest (cInput (admitted ?s1 ! ?k))
                 (cLineNumberBegin (admitted ?s1 ! ?k)) (cPromise (admitted ?s1 ! ?k)) ?s1) #
               map (EvTranslate 0) bs\<rparr>) =
     Some (s\<lparr>requestId := requestId s + 1,
             batcher := (batcher s)\<lparr>pending := []\<rparr>,
             capacityBytes := capacityBytes s +
               int (sum_list (map reqBytes (pending (batcher s)))),
             trackers := tk, promises := pr,
             trace := trace s @ EvProcess input #
               EvNewRequest (newRequest input 0 (length (promises s)) s) #
               map (EvTranslate 0) bs\<rparr>)"
    unfolding c Caller.sel r by (simp add: a)
  finally have eq: "callStep input s =
     Some (s\<lparr>requestId := requestId s + 1,
             batcher := (batcher s)\<lparr>pending := []\<rparr>,
             capacityBytes := capacityBytes s +
               int (sum_list (map reqBytes (pending (batcher s)))),
             trackers := tk, promises := pr,
             trace := trace s @ EvProcess input #
               EvNewRequest (newRequest input 0 (length (promises s)) s) #
               map (EvTranslate 0) bs\<rparr>)" .
  have "concat (map batchRequests bs) = pending (batcher s) @
       [(newRequest input 0 (length (promises s)) s)
          \<lparr>callbacks := [Callback (length (trackers s)) (length input)]\<rparr>]"
    using q unfolding c Caller.sel r p by simp
  with eq show ?thesis by blast
qed

lemma backgroundStep_eff:
  assumes "k < length (background s)"
  shows "\<exists>bs tk. backgroundStep k s =
     Some (s\<lparr>requestId := requestId s + 1,
             batcher := (batcher s)\<lparr>pending := []\<rparr>,
             pcqueue := pcqueue s @ bs,
             trackers := tk,
             background := take k (background s) @ drop (Suc k) (background s),
             trace := trace s @ EvProcess (tInput (background s ! k)) #
               EvNewRequest (newRequest (tInput (background s ! k))
                 (tLineNumberBegin (background s ! k)) (tPromise (background s ! k)) s) #
               map EvProduce bs\<rparr>) \<and>
     concat (map batchRequests bs) = pending (batcher s) @
       [(newRequest (tInput (background s ! k)) (tLineNumberBegin (background s ! k))
           (tPromise (background s ! k)) s)
          \<lparr>callbacks := [Callback (tTracker (background s ! k))
                            (tInputBytes (background s ! k))]\<rparr>] \<and>
     Poison \<notin> set bs"
proof -
  let ?task = "background s ! k"
  let ?s0 = "s\<lparr>background := take k (background s) @ drop (Suc k) (background s)\<rparr>"
  from queueInBackground_eff [of ?task ?s0] obtain bs tk where
    e: "queueInBackground ?task ?s0 =
     ?s0\<lparr>requestId := requestId ?s0 + 1,
       batcher := (batcher ?s0)\<lparr>pending := []\<rparr>,
       pcqueue := pcqueue ?s0 @ bs,
       trackers := tk,
       trace := trace ?s0 @ EvProcess (tInput ?task) #
         EvNewRequest (newRequest (tInput ?task) (tLineNumberBegin ?task) (tPromise ?task) ?s0) #
         map EvProduce bs\<rparr>"
    and c: "concat (map batchRequests bs) = pending (batcher ?s0) @
       [(newRequest (tInput ?task) (tLineNumberBegin ?task) (tPromise ?task) ?s0)
          \<lparr>callbacks := [Callback (tTracker ?task) (tInputBytes ?task)]\<rparr>]"
    and np: "Poison \<notin> set bs"
    by blast
  have "backgroundStep k s = Some (moveFuture (tTracker ?task) (queueInBackground ?task ?s0))"
    using assms by (simp add: backgroundStep_def Let_def del: queueInBackground.simps)
  also have "\<dots> = Some (s\<lparr>requestId := requestId s + 1,
             batcher := (batcher s)\<lparr>pending := []\<rparr>,
             pcqueue := pcqueue s @ bs,
             trackers := tk[tTracker ?task := (tk ! tTracker ?task)\<lparr>future := None\<rparr>],
             background := take k (background s) @ drop (Suc k) (background s),
             trace := trace s @ EvProcess (tInput ?task) #
               EvNewRequest (newRequest (tInput ?task) (tLineNumberBegin ?task)
                 (tPromise ?task) s) #
               map EvProduce bs\<rparr>)"
    unfolding e newRequest_frame by (simp add: moveFuture_def)
  finally have eq: "backgroundStep k s = Some (s\<lparr>requestId := requestId s + 1,
             batcher := (batcher s)\<lparr>pending := []\<rparr>,
             pcqueue := pcqueue s @ bs,
             trackers := tk[tTracker ?task := (tk ! tTracker ?task)\<lparr>future := None\<rparr>],
             background := take k (background s) @ drop (Suc k) (background s),
             trace := trace s @ EvProcess (tInput ?task) #
               EvNewRequest (newRequest (tInput ?task) (tLineNumberBegin ?task)
                 (tPromise ?task) s) #
               map EvProduce bs\<rparr>)" .
  have "concat (map batchRequests bs) = pending (batcher s) @
       [(newRequest (tInput ?task) (tLineNumberBegin ?task) (tPromise ?task) s)
          \<lparr>callbacks := [Callback (tTracker ?task) (tInputBytes ?task)]\<rparr>]"
    using c unfolding newRequest_frame by simp
  with eq np show ?thesis by blast
qed

lemma step_cases [consumes 1, case_names Rejected Admitted Proceeded ProceededSync Launched
    Synchronous Background Exit Work Stop]:
  assumes "step a s = Some s'"
  obtains
    (Rejected) input tk pr where
      "as_size_t (capacityBytes s) < int (length (input :: string))"
      "s' = s\<lparr>trackers := tk, promises := pr\<rparr>"
  | (Admitted) input t p tk pr where
      "a = AAdmit input"
      "int (length input) \<le> as_size_t (capacityBytes s)"
      "s' = s\<lparr>trackers := tk, promises := pr,
              admitted := admitted s @ [Caller input 0 t p]\<rparr>"
  | (Proceeded) k c where
      "a = AProceed k"
      "k < length (admitted s)" "c = admitted s ! k" "0 < numWorkers s"
      "s' = s\<lparr>capacityBytes := capacityBytes s - int (length (cInput c)),
              admitted := take k (admitted s) @ drop (Suc k) (admitted s),
              background := background s @
                [Task (cInput c) (cLineNumberBegin c) (cTracker c) (cPromise c)
                   (length (cInput c))],
              trace := trace s @ [EvAsync]\<rparr>"
  | (ProceededSync) k c bs tk pr where
      "a = AProceed k"
      "k < length (admitted s)" "c = admitted s ! k" "numWorkers s = 0"
      "s' = s\<lparr>requestId := requestId s + 1,
              batcher := (batcher s)\<lparr>pending := []\<rparr>,
              capacityBytes := capacityBytes s +
                int (sum_list (map reqBytes (pending (batcher s)))),
              trackers := tk, promises := pr,
              admitted := take k (admitted s) @ drop (Suc k) (admitted s),
              trace := trace s @ EvProcess (cInput c) #
                EvNewRequest (newRequest (cInput c) (cLineNumberBegin c) (cPromise c) s) #
                map (EvTranslate 0) bs\<rparr>"
      "concat (map batchRequests bs) = pending (batcher s) @
         [(newRequest (cInput c) (cLineNumberBegin c) (cPromise c) s)
            \<lparr>callbacks := [Callback (cTracker c) (length (cInput c))]\<rparr>]"
  | (Launched) input t p tk pr where
      "entersCall a"
      "int (length input) \<le> as_size_t (capacityBytes s)" "0 < numWorkers s"
      "s' = s\<lparr>capacityBytes := capacityBytes s - int (length input),
              trackers := tk, promises := pr,
              background := background s @ [Task input 0 t p (length input)],
              trace := trace s @ [EvAsync]\<rparr>"
  | (Synchronous) input t p bs tk pr where
      "entersCall a"
      "int (length input) \<le> as_size_t (capacityBytes s)" "numWorkers s = 0"
      "s' = s\<lparr>requestId := requestId s + 1,
              batcher := (batcher s)\<lparr>pending := []\<rparr>,
              capacityBytes := capacityBytes s + int (sum_list (map reqBytes (pending (batcher s)))),
              trackers := tk, promises := pr,
              trace := trace s @ EvProcess input # EvNewRequest (newRequest input 0 p s) #
                map (EvTranslate 0) bs\<rparr>"
      "concat (map batchRequests bs) = pending (batcher s) @
         [(newRequest input 0 p s)\<lparr>callbacks := [Callback t (length input)]\<rparr>]"
  | (Background) k task bs tk where
      "k < length (background s)" "task = background s ! k"
      "s' = s\<lparr>requestId := requestId s + 1,
              batcher := (batcher s)\<lparr>pending := []\<rparr>,
              pcqueue := pcqueue s @ bs,
              trackers := tk,
              background := take k (background s) @ drop (Suc k) (background s),
              trace := trace s @ EvProcess (tInput task) #
                EvNewRequest (newRequest (tInput task) (tLineNumberBegin task) (tPromise task) s) #
                map EvProduce bs\<rparr>"
      "concat (map batchRequests bs) = pending (batcher s) @
         [(newRequest (tInput task) (tLineNumberBegin task) (tPromise task) s)
            \<lparr>callbacks := [Callback (tTracker task) (tInputBytes task)]\<rparr>]"
      "Poison \<notin> set bs"
  | (Exit) q ws where
      "pcqueue s = Poison # q" "s' = s\<lparr>pcqueue := q, workers := ws\<rparr>"
  | (Work) i rs q tk pr where
      "pcqueue s = Sentences rs # q"
      "s' = s\<lparr>capacityBytes := capacityBytes s + int (batchBytes (Sentences rs)),
              pcqueue := q, trackers := tk, promises := pr,
              trace := trace s @ [EvTranslate i (Sentences rs)]\<rparr>"
  | (Stop) pre q' tk pr tr where
      "s' = s\<lparr>capacityBytes := capacityBytes s + int (sum_list (map batchBytes pre)),
              pcqueue := q', workers := [], trackers := tk, promises := pr,
              trace := trace s @ replicate (length (workers s)) (EvProduce Poison) @ tr\<rparr>"
      "pcqueue s @ replicate (length (workers s)) Poison = pre @ q'"
      "issued tr = []" "produced tr = []" "joined tr = map translatorIdx (workers s)"
      "EvAsync \<notin> set tr"
proof -
  have call: thesis if e: "entersCall a" and s': "callStep input s = Some s'" for input
  proof -
    consider "as_size_t (capacityBytes s) < int (length input)"
      | "int (length input) \<le> as_size_t (capacityBytes s)" "0 < numWorkers s"
      | "int (length input) \<le> as_size_t (capacityBytes s)" "numWorkers s = 0"
      by linarith
    then show thesis
    proof cases
      case 1
      from callStep_rejected [OF 1] s' obtain tk where
        "s' = s\<lparr>trackers := tk, promises := promises s @ [Some EmptyResponse]\<rparr>"
        by auto
      with 1 show thesis by (rule Rejected)
    next
      case 2
      from callStep_launched [OF 2] s' have
        "s' = s\<lparr>capacityBytes := capacityBytes s - int (length input),
             trackers := trackers s @ [\<lparr>status = UNSET, future = Some (length (promises s)),
                                          tracked = None\<rparr>],
             promises := promises s @ [None],
             background := background s @
               [Task input 0 (length (trackers s)) (length (promises s)) (length input)],
             trace := trace s @ [EvAsync]\<rparr>"
        by simp
      with e 2 show thesis by (rule Launched)
    next
      case 3
      from callStep_synchronous [OF 3] s' obtain bs tk pr where
        "s' = s\<lparr>requestId := requestId s + 1,
             batcher := (batcher s)\<lparr>pending := []\<rparr>,
             capacityBytes := capacityBytes s +
               int (sum_list (map reqBytes (pending (batcher s)))),
             trackers := tk, promises := pr,
             trace := trace s @ EvProcess input #
               EvNewRequest (newRequest input 0 (length (promises s)) s) #
               map (EvTranslate 0) bs\<rparr>"
        and "concat (map batchRequests bs) = pending (batcher s) @
         [(newRequest input 0 (length (promises s)) s)
            \<lparr>callbacks := [Callback (length (trackers s)) (length input)]\<rparr>]"
        by auto
      with e 3 show thesis by (rule Synchronous)
    qed
  qed
  show thesis
  proof (cases a)
    case (ATranslate input)
    with assms show thesis by (intro call [of input]) simp_all
  next
    case (ATranslateWithCopy input)
    with assms show thesis by (intro call [of input]) simp_all
  next
    case (AAdmit input)
    with assms have s': "s' = admitStep input s" by simp
    show thesis
    proof (cases "as_size_t (capacityBytes s) < int (length input)")
      case True
      from admitStep_rejected [OF True] s' obtain tk where
        "s' = s\<lparr>trackers := tk, promises := promises s @ [Some EmptyResponse]\<rparr>"
        by auto
      with True show thesis by (rule Rejected)
    next
      case False
      then have f: "int (length input) \<le> as_size_t (capacityBytes s)" by simp
      from admitStep_accepted [OF f] s' have
        "s' = s\<lparr>trackers := trackers s @ [\<lparr>status = UNSET, future = Some (length (promises s)),
                                    tracked = None\<rparr>],
           promises := promises s @ [None],
           admitted := admitted s @ [Caller input 0 (length (trackers s)) (length (promises s))]\<rparr>"
        by simp
      with AAdmit f show thesis by (rule Admitted)
    qed
  next
    case (AProceed k)
    with assms have p: "proceedStep k s = Some s'" by simp
    then have k: "k < length (admitted s)" by (simp add: proceedStep_def split: if_splits)
    show thesis
    proof (cases "0 < numWorkers s")
      case True
      from proceedStep_launched [OF k True] p have
        "s' = s\<lparr>capacityBytes := capacityBytes s - int (length (cInput (admitted s ! k))),
             admitted := take k (admitted s) @ drop (Suc k) (admitted s),
             background := background s @
               [Task (cInput (admitted s ! k)) (cLineNumberBegin (admitted s ! k))
                  (cTracker (admitted s ! k)) (cPromise (admitted s ! k))
                  (length (cInput (admitted s ! k)))],
             trace := trace s @ [EvAsync]\<rparr>"
        by simp
      with AProceed k refl True show thesis by (rule Proceeded)
    next
      case False
      then have n: "numWorkers s = 0" by simp
      from proceedStep_synchronous [OF k n] p obtain bs tk pr where
        "s' = s\<lparr>requestId := requestId s + 1,
             batcher := (batcher s)\<lparr>pending := []\<rparr>,
             capacityBytes := capacityBytes s +
               int (sum_list (map reqBytes (pending (batcher s)))),
             trackers := tk, promises := pr,
             admitted := take k (admitted s) @ drop (Suc k) (admitted s),
             trace := trace s @ EvProcess (cInput (admitted s ! k)) #
               EvNewRequest (newRequest (cInput (admitted s ! k))
                 (cLineNumberBegin (admitted s ! k)) (cPromise (admitted s ! k)) s) #
               map (EvTranslate 0) bs\<rparr>"
        and "concat (map batchRequests bs) = pending (batcher s) @
         [(newRequest (cInput (admitted s ! k)) (cLineNumberBegin (admitted s ! k))
             (cPromise (admitted s ! k)) s)
            \<lparr>callbacks := [Callback (cTracker (admitted s ! k))
                              (length (cInput (admitted s ! k)))]\<rparr>]"
        by auto
      with AProceed k refl n show thesis by (rule ProceededSync)
    qed
  next
    case (ABackground k)
    with assms have b: "backgroundStep k s = Some s'" by simp
    then have k: "k < length (background s)" by (simp add: backgroundStep_def split: if_splits)
    from backgroundStep_eff [OF k] b obtain bs tk where
      "s' = s\<lparr>requestId := requestId s + 1,
             batcher := (batcher s)\<lparr>pending := []\<rparr>,
             pcqueue := pcqueue s @ bs,
             trackers := tk,
             background := take k (background s) @ drop (Suc k) (background s),
             trace := trace s @ EvProcess (tInput (background s ! k)) #
               EvNewRequest (newRequest (tInput (background s ! k))
                 (tLineNumberBegin (background s ! k)) (tPromise (background s ! k)) s) #
               map EvProduce bs\<rparr>"
      and "concat (map batchRequests bs) = pending (batcher s) @
       [(newRequest (tInput (background s ! k)) (tLineNumberBegin (background s ! k))
           (tPromise (background s ! k)) s)
          \<lparr>callbacks := [Callback (tTracker (background s ! k))
                            (tInputBytes (background s ! k))]\<rparr>]"
      and "Poison \<notin> set bs"
      by auto
    with k refl show thesis by (rule Background)
  next
    case (AWorker k)
    with assms have w: "workerStep k s = Some s'" by simp
    show thesis
    proof (cases "pcqueue s")
      case Nil
      with w show thesis by (simp add: workerStep_def split: if_splits)
    next
      case (Cons b q)
      show thesis
      proof (cases b)
        case Poison
        with w Cons have "pcqueue s = Poison # q"
          "s' = s\<lparr>pcqueue := q,
             workers := (workers s)[k := Worker (translatorIdx (workers s ! k)) True]\<rparr>"
          by (auto simp: workerStep_def split: if_splits)
        then show thesis by (rule Exit)
      next
        case (Sentences rs)
        let ?i = "translatorIdx (workers s ! k)"
        from w Cons Sentences have s': "s' = translateBatch ?i (Sentences rs) (s\<lparr>pcqueue := q\<rparr>)"
          by (auto simp: workerStep_def split: if_splits)
        obtain tk pr where e: "translateBatch ?i (Sentences rs) (s\<lparr>pcqueue := q\<rparr>) =
           (s\<lparr>pcqueue := q\<rparr>)\<lparr>capacityBytes := capacityBytes (s\<lparr>pcqueue := q\<rparr>) +
               int (batchBytes (Sentences rs)), trackers := tk, promises := pr,
             trace := trace (s\<lparr>pcqueue := q\<rparr>) @ [EvTranslate ?i (Sentences rs)]\<rparr>"
          using translateBatch_eff by blast
        have "s' = s\<lparr>capacityBytes := capacityBytes s + int (batchBytes (Sentences rs)),
              pcqueue := q, trackers := tk, promises := pr,
              trace := trace s @ [EvTranslate ?i (Sentences rs)]\<rparr>"
          unfolding s' e by simp
        moreover have "pcqueue s = Sentences rs # q" by (simp add: Cons Sentences)
        ultimately show thesis using Work by blast
      qed
    qed
  next
    case AStop
    with assms have st: "stop s = Some s'" by simp
    from stop_eff [of s] obtain pre q' tk pr tr where
      e: "stop s = Some (s\<lparr>capacityBytes := capacityBytes s + int (sum_list (map batchBytes pre)),
             pcqueue := q', workers := [], trackers := tk, promises := pr,
             trace := trace s @ replicate (length (workers s)) (EvProduce Poison) @ tr\<rparr>)"
      and r: "pcqueue s @ replicate (length (workers s)) Poison = pre @ q'"
        "issued tr = []" "produced tr = []" "joined tr = map translatorIdx (workers s)"
        "EvAsync \<notin> set tr"
      by blast
    have "s' = s\<lparr>capacityBytes := capacityBytes s + int (sum_list (map batchBytes pre)),
              pcqueue := q', workers := [], trackers := tk, promises := pr,
              trace := trace s @ replicate (length (workers s)) (EvProduce Poison) @ tr\<rparr>"
      using st e by simp
    then show thesis using r by (rule Stop)
  qed
qed

lemma run_invariant:
  assumes "run actions s = Some s'" and "P s"
    and "\<And>a s s'. step a s = Some s' \<Longrightarrow> P s \<Longrightarrow> P s'"
  shows "P s'"
  using assms(1,2)
proof (induction actions arbitrary: s)
  case Nil
  then show ?case by simp
next
  case (Cons a actions)
  then obtain s1 where s1: "step a s = Some s1" "run actions s1 = Some s'"
    by (auto split: option.splits)
  from assms(3) [OF s1(1) Cons.prems(2)] Cons.IH [OF s1(2)] show ?case by simp
qed

lemma run_invariant_oneAtATime:
  assumes "run actions s = Some s'" and "oneAtATime actions s" and "P s"
    and "\<And>a s s'. step a s = Some s' \<Longrightarrow> (entersCall a \<Longrightarrow> admitted s = []) \<Longrightarrow> P s \<Longrightarrow> P s'"
  shows "P s'"
  using assms(1,2,3)
proof (induction actions arbitrary: s)
  case Nil
  then show ?case by simp
next
  case (Cons a actions)
  then obtain s1 where s1: "step a s = Some s1" "run actions s1 = Some s'"
    by (auto split: option.splits)
  from Cons.prems(2) s1(1) have e: "entersCall a \<Longrightarrow> admitted s = []"
    and o: "oneAtATime actions s1"
    by (simp_all split: if_splits)
  from assms(4) [OF s1(1) e Cons.prems(3)] have "P s1" by simp
  with Cons.IH [OF s1(2) o] show ?case by simp
qed

section \<open>The admission accounting\<close>

lemma bytes_of_batches:
  "sum_list (map batchBytes bs) = sum_list (map reqBytes (concat (map batchRequests bs)))"
  by (induction bs) (simp_all add: batchBytes_def)

lemma bytes_of_poisons: "sum_list (replicate n (batchBytes Poison)) = 0"
  by (induction n) (simp_all add: batchBytes_def)

lemma bytes_without_task:
  "k < length ts \<Longrightarrow>
   sum_list (map tInputBytes (take k ts @ drop (Suc k) ts)) + tInputBytes (ts ! k) =
   sum_list (map tInputBytes ts)"
proof -
  assume "k < length ts"
  then have "ts = take k ts @ ts ! k # drop (Suc k) ts" by (rule id_take_nth_drop)
  then have "sum_list (map tInputBytes ts) =
      sum_list (map tInputBytes (take k ts @ ts ! k # drop (Suc k) ts))" by simp
  then show ?thesis by simp
qed

lemma step_budget:
  assumes "step a s = Some s'"
  shows "capacityBytes s' + int (outstanding s') = capacityBytes s + int (outstanding s)"
  using assms
proof (cases rule: step_cases)
  case (Rejected input tk pr)
  then show ?thesis by (simp add: outstanding_def)
next
  case (Admitted input t p tk pr)
  then show ?thesis by (simp add: outstanding_def)
next
  case (Proceeded k c)
  then show ?thesis by (simp add: outstanding_def)
next
  case (ProceededSync k c bs tk pr)
  then show ?thesis by (simp add: outstanding_def)
next
  case (Launched input t p tk pr)
  then show ?thesis by (simp add: outstanding_def)
next
  case (Synchronous input t p bs tk pr)
  then show ?thesis by (simp add: outstanding_def)
next
  case (Background k task bs tk)
  have "sum_list (map batchBytes bs) =
      sum_list (map reqBytes (pending (batcher s))) + tInputBytes task"
    by (simp add: bytes_of_batches Background(4) reqBytes_def)
  with bytes_without_task [OF Background(1)] Background(2,3) show ?thesis
    by (simp add: outstanding_def)
next
  case (Exit q ws)
  then show ?thesis by (simp add: outstanding_def batchBytes_def)
next
  case (Work i rs q tk pr)
  then show ?thesis by (simp add: outstanding_def)
next
  case (Stop pre q' tk pr tr)
  have "sum_list (map batchBytes (pcqueue s @ replicate (length (workers s)) Poison)) =
      sum_list (map batchBytes (pre @ q'))"
    by (simp only: Stop(2))
  then have "sum_list (map batchBytes (pcqueue s)) =
      sum_list (map batchBytes pre) + sum_list (map batchBytes q')"
    by (simp add: bytes_of_poisons)
  with Stop(1) show ?thesis by (simp add: outstanding_def)
qed

lemma run_budget:
  assumes "run actions s = Some s'"
  shows "capacityBytes s' + int (outstanding s') = capacityBytes s + int (outstanding s)"
  using assms
  by (rule run_invariant [where P = "\<lambda>x. capacityBytes x + int (outstanding x) =
        capacityBytes s + int (outstanding s)"]) (simp_all add: step_budget)


lemma construct_fresh:
  assumes "construct options process heuristic = Inr s0"
  shows "capacityBytes s0 = capacity_bytes options" "outstanding s0 = 0" "trace s0 = []"
    "requestId s0 = 0" "pending (batcher s0) = []" "pcqueue s0 = []" "background s0 = []"
    "numWorkers s0 = cpu_threads options" "length (workers s0) = cpu_threads options"
    "admitted s0 = []"
  using assms
  by (auto simp: construct_def outstanding_def split: sum.splits prod.splits)


lemmas run_example_simps =
  exampleService_def exampleProcess_def translate_def translateWithCopy_def translatePart_def
  Let_def prepareRequest_def produceTo.simps drain.simps pull_def ProduceSwap_def
  workerStep_def completeRequest_def set_value_def setStatus_def track_def
  addWholeRequest_def outstanding_def reqBytes_def batchBytes_def upt_rec
  stop_def stopLoops_def join_def callStep_def admitStep_def admit_def proceedStep_def
  backgroundStep_def moveFuture_def as_size_t_def



section \<open>The budget is respected\<close>

lemma step_not_overdrawn:
  assumes "step a s = Some s'" and "entersCall a \<Longrightarrow> admitted s = []"
    and "0 \<le> capacityBytes s \<and> length (admitted s) \<le> 1 \<and>
         list_all (\<lambda>c. int (length (cInput c)) \<le> capacityBytes s) (admitted s)"
  shows "0 \<le> capacityBytes s' \<and> length (admitted s') \<le> 1 \<and>
         list_all (\<lambda>c. int (length (cInput c)) \<le> capacityBytes s') (admitted s')"
  using assms(1)
proof (cases rule: step_cases)
  case (Rejected input tk pr)
  with assms(3) show ?thesis by simp
next
  case (Admitted input t p tk pr)
  from Admitted(1) assms(2) have "admitted s = []" by simp
  moreover from assms(3) Admitted(2) have "int (length input) \<le> capacityBytes s"
    by (simp add: as_size_t_nonneg)
  ultimately show ?thesis using assms(3) Admitted(3) by simp
next
  case (Proceeded k c)
  from Proceeded(2) assms(3) have k: "k = 0" and l: "length (admitted s) = 1" by simp_all
  from assms(3) Proceeded(2,3) have "int (length (cInput c)) \<le> capacityBytes s"
    by (simp add: list_all_length)
  with k l show ?thesis by (simp add: Proceeded(5))
next
  case (ProceededSync k c bs tk pr)
  from ProceededSync(2) assms(3) have k: "k = 0" and l: "length (admitted s) = 1" by simp_all
  with assms(3) show ?thesis by (simp add: ProceededSync(5))
next
  case (Launched input t p tk pr)
  from Launched(1) assms(2) have "admitted s = []" by simp
  moreover from assms(3) Launched(2) have "int (length input) \<le> capacityBytes s"
    by (simp add: as_size_t_nonneg)
  ultimately show ?thesis using Launched(4) by simp
next
  case (Synchronous input t p bs tk pr)
  from Synchronous(1) assms(2) have "admitted s = []" by simp
  with assms(3) Synchronous(4) show ?thesis by simp
next
  case (Background k task bs tk)
  with assms(3) show ?thesis by simp
next
  case (Exit q ws)
  with assms(3) show ?thesis by simp
next
  case (Work i rs q tk pr)
  from assms(3) have "list_all (\<lambda>c. int (length (cInput c)) \<le>
      capacityBytes s + int (batchBytes (Sentences rs))) (admitted s)"
    by (auto simp: list_all_iff)
  with assms(3) Work(2) show ?thesis by simp
next
  case (Stop pre q' tk pr tr)
  from assms(3) have "list_all (\<lambda>c. int (length (cInput c)) \<le>
      capacityBytes s + int (sum_list (map batchBytes pre))) (admitted s)"
    by (auto simp: list_all_iff)
  with assms(3) Stop(1) show ?thesis by simp
qed

text \<open>
  C3. A service constructed with the budget \<open>capacity_bytes\<close> keeps
  \<open>capacityBytes \<le> capacity_bytes\<close> in every state that a run reaches: a completion
  only adds back bytes of a request still outstanding. It keeps \<open>0 \<le> capacityBytes\<close>
  in the runs of a service whose budget is not negative in which no caller enters
  \<open>translate\<close> while another caller stands between the check of line 75 and the
  subtraction of line 83: there an admission only subtracts what the check has found
  available.
\<close>

theorem capacity_within_budget:
  assumes "construct options process heuristic = Inr s0"
    and "run actions s0 = Some s"
  shows "capacityBytes s \<le> capacity_bytes options \<and>
         (0 \<le> capacity_bytes options \<and> oneAtATime actions s0 \<longrightarrow> 0 \<le> capacityBytes s)"
proof -
  have "capacityBytes s + int (outstanding s) = capacityBytes s0 + int (outstanding s0)"
    using assms(2) by (rule run_budget)
  then have upper: "capacityBytes s \<le> capacity_bytes options"
    by (simp add: construct_fresh [OF assms(1)])
  have "0 \<le> capacityBytes s" if "0 \<le> capacity_bytes options" "oneAtATime actions s0"
  proof -
    have "0 \<le> capacityBytes s \<and> length (admitted s) \<le> 1 \<and>
         list_all (\<lambda>c. int (length (cInput c)) \<le> capacityBytes s) (admitted s)"
      using assms(2) that(2)
    proof (rule run_invariant_oneAtATime)
      show "0 \<le> capacityBytes s0 \<and> length (admitted s0) \<le> 1 \<and>
         list_all (\<lambda>c. int (length (cInput c)) \<le> capacityBytes s0) (admitted s0)"
        using that(1) by (simp add: construct_fresh [OF assms(1)])
    qed (rule step_not_overdrawn)
    then show ?thesis by simp
  qed
  with upper show ?thesis by simp
qed

theorem capacity_within_budget_witness:
  "construct (exampleOptions 1 10) exampleProcess (\<lambda>rs. 1) = Inr (exampleService 1 10) \<and>
   0 \<le> capacity_bytes (exampleOptions 1 10) \<and>
   oneAtATime [AAdmit ''hello'', AProceed 0, AAdmit ''world'', AProceed 0]
     (exampleService 1 10) \<and>
   (\<exists>s. run [AAdmit ''hello'', AProceed 0, AAdmit ''world'', AProceed 0]
          (exampleService 1 10) = Some s \<and>
        0 \<le> capacityBytes s \<and> capacityBytes s \<le> 10 \<and> capacityBytes s = 0)"
proof -
  have c: "0 \<le> capacity_bytes (exampleOptions 1 10)" "capacity_bytes (exampleOptions 1 10) = 10"
    by (simp_all add: exampleOptions_def)
  have o: "oneAtATime [AAdmit ''hello'', AProceed 0, AAdmit ''world'', AProceed 0]
     (exampleService 1 10)"
    by (simp add: run_example_simps)
  have "\<exists>s. run [AAdmit ''hello'', AProceed 0, AAdmit ''world'', AProceed 0]
          (exampleService 1 10) = Some s \<and> capacityBytes s = 0"
    by (simp add: run_example_simps)
  then obtain s where
    r: "run [AAdmit ''hello'', AProceed 0, AAdmit ''world'', AProceed 0]
          (exampleService 1 10) = Some s"
    and v: "capacityBytes s = 0"
    by (elim exE conjE)
  from capacity_within_budget [OF construct_example r] c o
  have i: "0 \<le> capacityBytes s" "capacityBytes s \<le> 10" by simp_all
  show ?thesis
    by (intro conjI exI [of _ s]) (fact construct_example c o r i v)+
qed

text \<open>
  Two callers that have both passed the check before either subtracts: each finds
  its six bytes within the ten available, and the two subtractions leave \<open>- 2\<close>.
\<close>

theorem capacity_overdrawn_by_overlapping_calls:
  "construct (exampleOptions 1 10) exampleProcess oneByOne = Inr (exampleService 1 10) \<and>
   0 \<le> capacity_bytes (exampleOptions 1 10) \<and>
   map_option capacityBytes
     (run [AAdmit ''abcdef'', AAdmit ''ghijkl'', AProceed 0, AProceed 0]
        (exampleService 1 10)) = Some (- 2)"
proof -
  have "map_option capacityBytes
     (run [AAdmit ''abcdef'', AAdmit ''ghijkl'', AProceed 0, AProceed 0]
        (exampleService 1 10)) = Some (- 2)"
    by (simp add: run_example_simps)
  moreover have "0 \<le> capacity_bytes (exampleOptions 1 10)"
    by (simp add: exampleOptions_def)
  ultimately show ?thesis using construct_example_oneByOne by simp
qed

section \<open>Request identifiers\<close>

lemma issued_replicate_produce: "issued (replicate n (EvProduce b)) = []"
  by (induction n) simp_all




section \<open>Priority and line number of submitted requests\<close>

lemma requests_of_poisons: "concat (map batchRequests (replicate n Poison)) = []"
  by (induction n) simp_all

lemma step_allAsSubmitted:
  assumes "step a s = Some s'" "allAsSubmitted s"
  shows "allAsSubmitted s'"
  using assms
proof (cases rule: step_cases)
  case (Rejected input tk pr)
  with assms(2) show ?thesis by (simp add: allAsSubmitted_def)
next
  case (Admitted input t p tk pr)
  with assms(2) show ?thesis by (simp add: allAsSubmitted_def)
next
  case (Proceeded k c)
  from assms(2) have ad: "list_all (\<lambda>caller. cLineNumberBegin caller = 0) (admitted s)"
    by (simp add: allAsSubmitted_def)
  with Proceeded(2,3) have l: "cLineNumberBegin c = 0"
    by (simp add: list_all_length)
  from ad have "list_all (\<lambda>caller. cLineNumberBegin caller = 0)
      (take k (admitted s) @ drop (Suc k) (admitted s))"
    by (auto simp: list_all_iff dest: in_set_takeD in_set_dropD)
  with Proceeded(5) assms(2) l show ?thesis
    by (simp add: allAsSubmitted_def issued_append)
next
  case (ProceededSync k c bs tk pr)
  from assms(2) have ad: "list_all (\<lambda>caller. cLineNumberBegin caller = 0) (admitted s)"
    by (simp add: allAsSubmitted_def)
  with ProceededSync(2,3) have l: "cLineNumberBegin c = 0"
    by (simp add: list_all_length)
  from ad have "list_all (\<lambda>caller. cLineNumberBegin caller = 0)
      (take k (admitted s) @ drop (Suc k) (admitted s))"
    by (auto simp: list_all_iff dest: in_set_takeD in_set_dropD)
  with ProceededSync(5) assms(2) l show ?thesis
    by (simp add: allAsSubmitted_def issued_append read_translations submittedAsIs_def
        newRequest_def)
next
  case (Launched input t p tk pr)
  with assms(2) show ?thesis by (simp add: allAsSubmitted_def issued_append)
next
  case (Synchronous input t p bs tk pr)
  with assms(2) show ?thesis
    by (simp add: allAsSubmitted_def issued_append read_translations submittedAsIs_def
        newRequest_def)
next
  case (Background k task bs tk)
  from assms(2) have bg: "list_all (\<lambda>task. tLineNumberBegin task = 0) (background s)"
    by (simp add: allAsSubmitted_def)
  with Background(1,2) have l: "tLineNumberBegin task = 0"
    by (simp add: list_all_length)
  from bg have "list_all (\<lambda>task. tLineNumberBegin task = 0)
      (take k (background s) @ drop (Suc k) (background s))"
    by (auto simp: list_all_iff dest: in_set_takeD in_set_dropD)
  with Background(3,4) assms(2) l show ?thesis
    by (simp add: allAsSubmitted_def issued_append read_productions submittedAsIs_def
        newRequest_def)
next
  case (Exit q ws)
  with assms(2) show ?thesis by (simp add: allAsSubmitted_def)
next
  case (Work i rs q tk pr)
  with assms(2) show ?thesis by (simp add: allAsSubmitted_def issued_append)
next
  case (Stop pre q' tk pr tr)
  have "concat (map batchRequests (pcqueue s @ replicate (length (workers s)) Poison)) =
      concat (map batchRequests (pre @ q'))"
    by (simp only: Stop(2))
  then have "concat (map batchRequests (pcqueue s)) =
      concat (map batchRequests pre) @ concat (map batchRequests q')"
    by (simp add: requests_of_poisons)
  with Stop(1,3) assms(2) show ?thesis
    by (simp add: allAsSubmitted_def issued_append issued_replicate_produce)
qed

text \<open>
  C10. In every state that a run of a constructed service reaches, every request
  constructed so far was constructed with \<open>nice = 20\<close> and line number \<open>0\<close>, and every
  request waiting in the Batcher or in the queue still has them: the submissions
  \<open>translate\<close> and \<open>translateWithCopy\<close> take no priority and no line number, and no step
  of a run changes them. (The steps of a run are submissions, launched tasks, worker
  steps and \<open>stop\<close>; \<open>amend\<close> is not one of them.)
\<close>

theorem submitted_priority_fixed:
  assumes "construct options process heuristic = Inr s0"
    and "run actions s0 = Some s"
  shows "list_all (\<lambda>r. nice r = 20 \<and> reqLineNumberBegin r = 0) (issued (trace s)) \<and>
         list_all (\<lambda>r. nice r = 20 \<and> reqLineNumberBegin r = 0) (pending (batcher s)) \<and>
         list_all (\<lambda>r. nice r = 20 \<and> reqLineNumberBegin r = 0)
           (concat (map batchRequests (pcqueue s)))"
proof -
  have "allAsSubmitted s0"
    by (simp add: allAsSubmitted_def construct_fresh [OF assms(1)])
  with assms(2) have "allAsSubmitted s"
    by (rule run_invariant) (rule step_allAsSubmitted)
  then show ?thesis
    by (simp add: allAsSubmitted_def submittedAsIs_def [abs_def])
qed

theorem submitted_priority_fixed_witness:
  "construct (exampleOptions 1 20) exampleProcess (\<lambda>rs. 1) = Inr (exampleService 1 20) \<and>
   (\<exists>s. run [ATranslate ''hello'', ABackground 0] (exampleService 1 20) = Some s \<and>
        length (issued (trace s)) = 1 \<and> length (pcqueue s) = 1 \<and>
        list_all (\<lambda>r. nice r = 20 \<and> reqLineNumberBegin r = 0) (issued (trace s)) \<and>
        list_all (\<lambda>r. nice r = 20 \<and> reqLineNumberBegin r = 0)
          (concat (map batchRequests (pcqueue s))))"
proof -
  have "\<exists>s. run [ATranslate ''hello'', ABackground 0] (exampleService 1 20) = Some s \<and>
        length (issued (trace s)) = 1 \<and> length (pcqueue s) = 1"
    by (simp add: run_example_simps)
  then obtain s where
    r: "run [ATranslate ''hello'', ABackground 0] (exampleService 1 20) = Some s"
    and v: "length (issued (trace s)) = 1" "length (pcqueue s) = 1"
    by (elim exE conjE)
  from submitted_priority_fixed [OF construct_example r]
  have i: "list_all (\<lambda>r. nice r = 20 \<and> reqLineNumberBegin r = 0) (issued (trace s))"
    "list_all (\<lambda>r. nice r = 20 \<and> reqLineNumberBegin r = 0)
       (concat (map batchRequests (pcqueue s)))"
    by simp_all
  show ?thesis
    by (intro conjI exI [of _ s]) (fact construct_example r v i)+
qed

section \<open>The single-threaded mode\<close>

text \<open>
  C5. With no workers, an accepted \<open>translate\<close> does everything before it returns: the
  text is processed and the request constructed, then the Batcher is drained, each
  batch pulled being translated by translator \<open>0\<close>. The batches cover every request
  that was pending, the new one last; the Batcher is empty afterwards; the future
  returned is already resolved; nothing was launched (the trace gains no launch,
  \<open>background\<close>, the queue and the worker list are as before).
\<close>

theorem synchronous_translate_resolves:
  assumes "numWorkers s = 0" and "int (length input) \<le> capacityBytes s"
  shows "\<exists>p s' r bs.
           translate input s = (Some p, s') \<and>
           p < length (promises s') \<and> promises s' ! p \<noteq> None \<and>
           trace s' = trace s @ EvProcess input # EvNewRequest r # map (EvTranslate 0) bs \<and>
           source r = input \<and> responsePromise r = p \<and>
           concat (map batchRequests bs) = pending (batcher s) @
             [r\<lparr>callbacks := [Callback (length (trackers s)) (length input)]\<rparr>] \<and>
           pending (batcher s') = [] \<and> pull (batcher s') = None \<and>
           background s' = background s \<and> pcqueue s' = pcqueue s \<and> workers s' = workers s"
proof -
  let ?t = "length (trackers s)" and ?p = "length (promises s)" and ?n = "length input"
  let ?s2 = "s\<lparr>trackers := trackers s @ [\<lparr>status = UNSET, future = Some ?p, tracked = None\<rparr>],
        promises := promises s @ [None],
        capacityBytes := capacityBytes s - int ?n\<rparr>"
  let ?s3 = "prepareRequest input 0 ?t ?p ?n ?s2"
  let ?s4 = "drain ?s3"
  let ?r = "newRequest input 0 ?p s"
  have acc: "int (length input) \<le> as_size_t (capacityBytes s)"
    using assms(2) by (rule as_size_t_fits)
  have u: "translatePart input 0 s = (?t, ?s4)"
    using assms(1) acc by (simp add: translatePart_def Let_def)
  from translatePart_synchronous [OF acc assms(1), of 0] obtain bs tk pr where
    e: "translatePart input 0 s =
       (?t, s\<lparr>requestId := requestId s + 1,
               batcher := (batcher s)\<lparr>pending := []\<rparr>,
               capacityBytes := capacityBytes s + int (sum_list (map reqBytes (pending (batcher s)))),
               trackers := tk, promises := pr,
               trace := trace s @ EvProcess input # EvNewRequest ?r # map (EvTranslate 0) bs\<rparr>)"
    and c: "concat (map batchRequests bs) = pending (batcher s) @
       [?r\<lparr>callbacks := [Callback ?t ?n]\<rparr>]"
    by blast
  from u e have s4: "?s4 = s\<lparr>requestId := requestId s + 1,
               batcher := (batcher s)\<lparr>pending := []\<rparr>,
               capacityBytes := capacityBytes s + int (sum_list (map reqBytes (pending (batcher s)))),
               trackers := tk, promises := pr,
               trace := trace s @ EvProcess input # EvNewRequest ?r # map (EvTranslate 0) bs\<rparr>"
    by simp
  have fields: "trace ?s4 = trace s @ EvProcess input # EvNewRequest ?r # map (EvTranslate 0) bs"
    "pending (batcher ?s4) = []" "background ?s4 = background s" "pcqueue ?s4 = pcqueue s"
    "workers ?s4 = workers s"
    unfolding s4 by simp_all
  have "map future (trackers ?s4) = map future (trackers ?s2)"
    by (simp only: futures_drain futures_prepareRequest)
  then have f: "map future (trackers ?s4) = map future (trackers s) @ [Some ?p]"
    by simp
  then have "length (map future (trackers ?s4)) = Suc ?t" by simp
  then have len: "?t < length (trackers ?s4)" by simp
  have "future (trackers ?s4 ! ?t) = map future (trackers ?s4) ! ?t"
    using len by (rule nth_map [symmetric])
  also have "\<dots> = Some ?p" unfolding f by (simp add: nth_append)
  finally have fut: "future (trackers ?s4 ! ?t) = Some ?p" .
  obtain tk3 where p3: "?s3 =
     ?s2\<lparr>requestId := requestId ?s2 + 1,
       batcher := (batcher ?s2)\<lparr>pending := pending (batcher ?s2) @
         [(newRequest input 0 ?p ?s2)\<lparr>callbacks := [Callback ?t ?n]\<rparr>]\<rparr>,
       trackers := tk3,
       trace := trace ?s2 @ [EvProcess input, EvNewRequest (newRequest input 0 ?p ?s2)]\<rparr>"
    using prepareRequest_eff by blast
  have "(newRequest input 0 ?p ?s2)\<lparr>callbacks := [Callback ?t ?n]\<rparr> \<in> set (pending (batcher ?s3))"
    "?p < length (promises ?s3)"
    unfolding p3 by simp_all
  moreover have "responsePromise ((newRequest input 0 ?p ?s2)\<lparr>callbacks := [Callback ?t ?n]\<rparr>) = ?p"
    by (simp add: newRequest_def)
  ultimately have "resolved ?p ?s4"
    by (intro resolved_drain disjI2) blast
  then have res: "?p < length (promises ?s4)" "promises ?s4 ! ?p \<noteq> None"
    by (simp_all add: resolved_def)
  let ?s' = "?s4\<lparr>trackers := (trackers ?s4)[?t := (trackers ?s4 ! ?t)\<lparr>future := None\<rparr>]\<rparr>"
  have tr: "translate input s = (Some ?p, ?s')"
    by (simp add: translate_def u fut)
  have "pull (batcher ?s') = None"
    using fields(2) by (simp add: pull_None)
  moreover have "source ?r = input" "responsePromise ?r = ?p"
    by (simp_all add: newRequest_def)
  ultimately show ?thesis
    using tr res fields c
    by (intro exI [of _ ?p] exI [of _ ?s'] exI [of _ ?r] exI [of _ bs]) simp
qed

theorem synchronous_translate_resolves_witness:
  "numWorkers (exampleService 0 10) = 0 \<and>
   int (length ''hello'') \<le> capacityBytes (exampleService 0 10) \<and>
   (\<exists>s' r bs.
      translate ''hello'' (exampleService 0 10) = (Some 0, s') \<and>
      promises s' ! 0 = Some (Translated ''hello'') \<and>
      status (trackers s' ! 0) = SUCCESS \<and>
      trace s' = EvProcess ''hello'' # EvNewRequest r # map (EvTranslate 0) bs \<and>
      pending (batcher s') = [] \<and> background s' = [])"
proof -
  have h: "numWorkers (exampleService 0 10) = 0"
    "int (length ''hello'') \<le> capacityBytes (exampleService 0 10)"
    by (simp_all add: exampleService_def)
  have v: "fst (translate ''hello'' (exampleService 0 10)) = Some 0"
    "promises (snd (translate ''hello'' (exampleService 0 10))) ! 0 = Some (Translated ''hello'')"
    "status (trackers (snd (translate ''hello'' (exampleService 0 10))) ! 0) = SUCCESS"
    "trace (exampleService 0 10) = []" "background (exampleService 0 10) = []"
    by (simp_all add: run_example_simps)
  from synchronous_translate_resolves [OF h] obtain p s' r bs where
    a: "translate ''hello'' (exampleService 0 10) = (Some p, s')"
      "trace s' = trace (exampleService 0 10) @ EvProcess ''hello'' # EvNewRequest r #
         map (EvTranslate 0) bs"
      "pending (batcher s') = []" "background s' = background (exampleService 0 10)"
    by (elim exE conjE)
  from a(1) v(1) have p: "p = 0" by simp
  have w: "translate ''hello'' (exampleService 0 10) = (Some 0, s')"
    "promises s' ! 0 = Some (Translated ''hello'')"
    "status (trackers s' ! 0) = SUCCESS"
    "trace s' = EvProcess ''hello'' # EvNewRequest r # map (EvTranslate 0) bs"
    "pending (batcher s') = []" "background s' = []"
    using a v p by simp_all
  show ?thesis
    by (intro conjI exI [of _ s'] exI [of _ r] exI [of _ bs]) (fact h w)+
qed

section \<open>Rejection\<close>




section \<open>A call and its parts\<close>

text \<open>
  The parts into which runs cut a call are the call: taken one after the other, with
  no other step in between, they leave the state that \<open>translate\<close> leaves.
\<close>

lemma translate_rejected_as_steps:
  assumes "as_size_t (capacityBytes s) < int (length input)"
  shows "run [AAdmit input] s = Some (snd (translate input s))"
  using assms
  by (simp add: translate_def translatePart_rejected admitStep_def admit_rejected
      moveFuture_def)

lemma translate_synchronous_as_steps:
  assumes "int (length input) \<le> as_size_t (capacityBytes s)" "numWorkers s = 0"
  shows "run [AAdmit input, AProceed (length (admitted s))] s = Some (snd (translate input s))"
proof -
  let ?t = "length (trackers s)" and ?p = "length (promises s)" and ?n = "length input"
  let ?s1 = "s\<lparr>trackers := trackers s @ [\<lparr>status = UNSET, future = Some ?p, tracked = None\<rparr>],
        promises := promises s @ [None]\<rparr>"
  let ?a = "?s1\<lparr>admitted := admitted s @ [Caller input 0 ?t ?p]\<rparr>"
  have a: "admitStep input s = ?a"
    using assms(1) by (simp add: admitStep_accepted)
  have undo1: "?a\<lparr>admitted := take (length (admitted s)) (admitted ?a) @
      drop (Suc (length (admitted s))) (admitted ?a)\<rparr> = ?s1"
    by simp
  have "proceedStep (length (admitted s)) ?a =
      Some (moveFuture ?t (proceed (Caller input 0 ?t ?p) ?s1))"
    using assms(2) unfolding proceedStep_def Let_def undo1 by simp
  moreover have "snd (translate input s) =
      moveFuture ?t (proceed (Caller input 0 ?t ?p) ?s1)"
    using assms by (simp add: translate_def translatePart_def Let_def moveFuture_def)
  ultimately show ?thesis by (simp add: a)
qed

lemma translate_launched_as_steps:
  assumes "int (length input) \<le> as_size_t (capacityBytes s)" "0 < numWorkers s"
  shows "run [AAdmit input, AProceed (length (admitted s)), ABackground (length (background s))] s =
     Some (snd (translate input s))"
proof -
  let ?t = "length (trackers s)" and ?p = "length (promises s)" and ?n = "length input"
  let ?s1 = "s\<lparr>trackers := trackers s @ [\<lparr>status = UNSET, future = Some ?p, tracked = None\<rparr>],
        promises := promises s @ [None]\<rparr>"
  let ?a = "?s1\<lparr>admitted := admitted s @ [Caller input 0 ?t ?p]\<rparr>"
  let ?task = "Task input 0 ?t ?p ?n"
  let ?s2 = "?s1\<lparr>capacityBytes := capacityBytes ?s1 - int ?n\<rparr>"
  let ?b = "?s2\<lparr>background := background s @ [?task], trace := trace s @ [EvAsync]\<rparr>"
  have a: "admitStep input s = ?a"
    using assms(1) by (simp add: admitStep_accepted)
  have undo1: "?a\<lparr>admitted := take (length (admitted s)) (admitted ?a) @
      drop (Suc (length (admitted s))) (admitted ?a)\<rparr> = ?s1"
    by simp
  have p: "proceedStep (length (admitted s)) ?a = Some ?b"
    using assms(2) unfolding proceedStep_def Let_def undo1 by simp
  have undo2: "?b\<lparr>background := take (length (background s)) (background ?b) @
      drop (Suc (length (background s))) (background ?b)\<rparr> = ?s2\<lparr>trace := trace ?s2 @ [EvAsync]\<rparr>"
    by simp
  have b: "backgroundStep (length (background s)) ?b =
      Some (moveFuture ?t (queueInBackground ?task (?s2\<lparr>trace := trace ?s2 @ [EvAsync]\<rparr>)))"
    unfolding backgroundStep_def Let_def undo2 by (simp del: queueInBackground.simps)
  have "snd (translate input s) =
      moveFuture ?t (queueInBackground ?task (?s2\<lparr>trace := trace ?s2 @ [EvAsync]\<rparr>))"
    using assms
    by (simp add: translate_def translatePart_def Let_def moveFuture_def
        del: queueInBackground.simps)
  with a p b show ?thesis by simp
qed

section \<open>The launched closure\<close>

text \<open>
  C7. With at least one worker, an accepted \<open>translate\<close> has launched the closure and
  the closure has run when \<open>translate\<close> returns: the text is processed, the request
  is constructed (the id allocator has moved on), the Batcher is emptied into the
  queue, and no closure is left to run. The caller has waited for all of it.
\<close>

theorem translate_waits_for_launched_closure:
  assumes "0 < numWorkers s" and "int (length input) \<le> as_size_t (capacityBytes s)"
  shows "\<exists>p s' r bs.
           translate input s = (Some p, s') \<and>
           trace s' = trace s @ EvAsync # EvProcess input # EvNewRequest r # map EvProduce bs \<and>
           source r = input \<and> responsePromise r = p \<and> reqId r = requestId s \<and>
           requestId s' = requestId s + 1 \<and>
           concat (map batchRequests bs) = pending (batcher s) @
             [r\<lparr>callbacks := [Callback (length (trackers s)) (length input)]\<rparr>] \<and>
           pending (batcher s') = [] \<and> pcqueue s' = pcqueue s @ bs \<and>
           background s' = background s \<and>
           capacityBytes s' = capacityBytes s - int (length input)"
proof -
  let ?t = "length (trackers s)" and ?p = "length (promises s)" and ?n = "length input"
  let ?r = "newRequest input 0 ?p s"
  from translatePart_launched [OF assms(2,1), of 0] obtain bs tk where
    e: "translatePart input 0 s =
     (?t, s\<lparr>requestId := requestId s + 1,
        batcher := (batcher s)\<lparr>pending := []\<rparr>,
        capacityBytes := capacityBytes s - int ?n,
        pcqueue := pcqueue s @ bs,
        trackers := tk,
        promises := promises s @ [None],
        trace := trace s @ EvAsync # EvProcess input # EvNewRequest ?r # map EvProduce bs\<rparr>)"
    and c: "concat (map batchRequests bs) = pending (batcher s) @
       [?r\<lparr>callbacks := [Callback ?t ?n]\<rparr>]"
    by blast
  let ?s2 = "s\<lparr>trackers := trackers s @ [\<lparr>status = UNSET, future = Some ?p, tracked = None\<rparr>],
        promises := promises s @ [None],
        capacityBytes := capacityBytes s - int ?n,
        trace := trace s @ [EvAsync]\<rparr>"
  let ?s4 = "produceTo (prepareRequest input 0 ?t ?p ?n ?s2)"
  have u: "translatePart input 0 s = (?t, ?s4)"
    using assms by (simp add: translatePart_def Let_def)
  obtain bs' where "trackers ?s4 = trackers (prepareRequest input 0 ?t ?p ?n ?s2)"
    using produceTo_eff [of "prepareRequest input 0 ?t ?p ?n ?s2"] by auto
  then have "map future (trackers ?s4) = map future (trackers ?s2)"
    by (simp only: futures_prepareRequest)
  then have f: "map future (trackers ?s4) = map future (trackers s) @ [Some ?p]"
    by simp
  then have "length (map future (trackers ?s4)) = Suc ?t" by simp
  then have len: "?t < length (trackers ?s4)" by simp
  have "future (trackers ?s4 ! ?t) = map future (trackers ?s4) ! ?t"
    using len by (rule nth_map [symmetric])
  also have "\<dots> = Some ?p" unfolding f by (simp add: nth_append)
  finally have fut: "future (trackers ?s4 ! ?t) = Some ?p" .
  from u e have s4: "?s4 = s\<lparr>requestId := requestId s + 1,
        batcher := (batcher s)\<lparr>pending := []\<rparr>,
        capacityBytes := capacityBytes s - int ?n,
        pcqueue := pcqueue s @ bs,
        trackers := tk,
        promises := promises s @ [None],
        trace := trace s @ EvAsync # EvProcess input # EvNewRequest ?r # map EvProduce bs\<rparr>"
    by simp
  let ?s' = "?s4\<lparr>trackers := (trackers ?s4)[?t := (trackers ?s4 ! ?t)\<lparr>future := None\<rparr>]\<rparr>"
  have tr: "translate input s = (Some ?p, ?s')"
    by (simp add: translate_def u fut)
  have fields: "trace ?s' = trace s @ EvAsync # EvProcess input # EvNewRequest ?r # map EvProduce bs"
    "requestId ?s' = requestId s + 1" "pending (batcher ?s') = []"
    "pcqueue ?s' = pcqueue s @ bs" "background ?s' = background s"
    "capacityBytes ?s' = capacityBytes s - int ?n"
    unfolding s4 by simp_all
  have r: "source ?r = input" "responsePromise ?r = ?p" "reqId ?r = requestId s"
    by (simp_all add: newRequest_def)
  show ?thesis
    apply (rule exI [of _ ?p], rule exI [of _ ?s'], rule exI [of _ ?r], rule exI [of _ bs])
    apply (intro conjI)
              apply (fact tr fields r c)+
    done
qed

theorem translate_waits_for_launched_closure_witness:
  "0 < numWorkers (exampleService 1 10) \<and>
   int (length ''hello'') \<le> as_size_t (capacityBytes (exampleService 1 10)) \<and>
   (\<exists>s' r bs.
      translate ''hello'' (exampleService 1 10) = (Some 0, s') \<and>
      trace s' = EvAsync # EvProcess ''hello'' # EvNewRequest r # map EvProduce bs \<and>
      length bs = 1 \<and> requestId s' = 1 \<and> pcqueue s' = bs \<and> background s' = [] \<and>
      status (trackers s' ! 0) = QUEUED)"
proof -
  have h: "0 < numWorkers (exampleService 1 10)"
    "int (length ''hello'') \<le> as_size_t (capacityBytes (exampleService 1 10))"
    by (simp_all add: exampleService_def as_size_t_def)
  have v: "fst (translate ''hello'' (exampleService 1 10)) = Some 0"
    "length (pcqueue (snd (translate ''hello'' (exampleService 1 10)))) = 1"
    "status (trackers (snd (translate ''hello'' (exampleService 1 10))) ! 0) = QUEUED"
    "trace (exampleService 1 10) = []" "background (exampleService 1 10) = []"
    "pcqueue (exampleService 1 10) = []" "requestId (exampleService 1 10) = 0"
    by (simp_all add: run_example_simps)
  from translate_waits_for_launched_closure [OF h] obtain p s' r bs where
    a: "translate ''hello'' (exampleService 1 10) = (Some p, s')"
      "trace s' = trace (exampleService 1 10) @ EvAsync # EvProcess ''hello'' #
         EvNewRequest r # map EvProduce bs"
      "requestId s' = requestId (exampleService 1 10) + 1"
      "pcqueue s' = pcqueue (exampleService 1 10) @ bs"
      "background s' = background (exampleService 1 10)"
    by (elim exE conjE)
  from a(1) v(1) have p: "p = 0" by simp
  have w: "translate ''hello'' (exampleService 1 10) = (Some 0, s')"
    "trace s' = EvAsync # EvProcess ''hello'' # EvNewRequest r # map EvProduce bs"
    "length bs = 1" "requestId s' = 1" "pcqueue s' = bs" "background s' = []"
    "status (trackers s' ! 0) = QUEUED"
    using a v p by simp_all
  show ?thesis
    by (intro conjI exI [of _ s'] exI [of _ r] exI [of _ bs]) (fact h w)+
qed

end
